theory Spec2Isabelle
  imports Main "HOL-Library.Multiset" "HOL-Library.Log_Nat"
begin

section \<open>Quote builder: the line-item list (app.js, lines 44-61)\<close>

text \<open>
  The script keeps two globals: \<^verbatim>\<open>let lignes = []\<close> and \<^verbatim>\<open>let ligneId = 0\<close>.
  A line item is the object literal \<^verbatim>\<open>{ id: ligneId, ref: '', qte: '' }\<close>: a numeric
  id and two strings, both read from form controls (\<^verbatim>\<open>this.value\<close>). The JS property
  \<^verbatim>\<open>id\<close> is the field \<open>lid\<close> here, since \<open>id\<close> is HOL's identity function.

  The id counter is a JS Number that only ever takes the values 0, 1, 2, ...; it is
  modelled as an unbounded \<open>int\<close>, which is exact for the first \<open>2 ^ 53\<close> calls of
  \<^verbatim>\<open>addLigne\<close>.

  The writes to the page (\<^verbatim>\<open>renderLignes\<close>, and the text that \<^verbatim>\<open>calcTotal\<close> puts
  into the two total fields) are derived from the two globals and change neither of
  them; the state below is the pair of globals.
\<close>

record ligne =
  lid :: int
  ref :: string
  qte :: string

record state =
  lignes :: "ligne list"
  ligneId :: int

text \<open>The globals as declared on lines 44 and 45.\<close>

definition init :: state where
  "init = \<lparr>lignes = [], ligneId = 0\<rparr>"

text \<open>
  \<^verbatim>\<open>function addLigne() { ligneId++; lignes.push({ id: ligneId, ref: '', qte: '' }); ... }\<close>
\<close>

definition addLigne :: "state \<Rightarrow> state" where
  "addLigne s =
     (let ligneId' = ligneId s + 1
      in \<lparr>lignes = lignes s @ [\<lparr>lid = ligneId', ref = [], qte = []\<rparr>],
          ligneId = ligneId'\<rparr>)"

text \<open>
  \<^verbatim>\<open>function removeLigne(id) { if (lignes.length > 1) { lignes = lignes.filter(l => l.id !== id); ... } }\<close>
\<close>

definition removeLigne :: "int \<Rightarrow> state \<Rightarrow> state" where
  "removeLigne i s =
     (if length (lignes s) > 1
      then s\<lparr>lignes := filter (\<lambda>l. lid l \<noteq> i) (lignes s)\<rparr>
      else s)"

text \<open>
  \<^verbatim>\<open>function updateLigne(id, field, value) {
    const ligne = lignes.find(l => l.id === id); if (ligne) { ligne[field] = value; ... } }\<close>

  The two call sites (lines 69 and 73) pass the field names \<^verbatim>\<open>'ref'\<close> and
  \<^verbatim>\<open>'qte'\<close>, and a string as value; \<open>field\<close> has these two names. \<^verbatim>\<open>find\<close>
  returns the first element that matches, and the assignment mutates that object where
  it sits in the array: \<open>assign_first\<close> rewrites the first matching position.
\<close>

datatype field = Ref | Qte

fun set_field :: "field \<Rightarrow> string \<Rightarrow> ligne \<Rightarrow> ligne" where
  "set_field Ref v l = l\<lparr>ref := v\<rparr>"
| "set_field Qte v l = l\<lparr>qte := v\<rparr>"

fun assign_first :: "int \<Rightarrow> field \<Rightarrow> string \<Rightarrow> ligne list \<Rightarrow> ligne list" where
  "assign_first i f v [] = []"
| "assign_first i f v (l # ls) =
     (if lid l = i then set_field f v l # ls else l # assign_first i f v ls)"

definition updateLigne :: "int \<Rightarrow> field \<Rightarrow> string \<Rightarrow> state \<Rightarrow> state" where
  "updateLigne i f v s =
     (case find (\<lambda>l. lid l = i) (lignes s) of
        None \<Rightarrow> s
      | Some ligne \<Rightarrow> s\<lparr>lignes := assign_first i f v (lignes s)\<rparr>)"

text \<open>
  The calls a page can make on the quote builder, and a run of them from a state.
  \<open>assigned\<close> lists the ids that the \<^verbatim>\<open>addLigne\<close> calls of a run hand out, in
  order.
\<close>

datatype op = AddLigne | RemoveLigne int | UpdateLigne int field string

fun step :: "op \<Rightarrow> state \<Rightarrow> state" where
  "step AddLigne s = addLigne s"
| "step (RemoveLigne i) s = removeLigne i s"
| "step (UpdateLigne i f v) s = updateLigne i f v s"

fun run :: "op list \<Rightarrow> state \<Rightarrow> state" where
  "run [] s = s"
| "run (c # cs) s = run cs (step c s)"

fun assigned :: "op list \<Rightarrow> state \<Rightarrow> int list" where
  "assigned [] s = []"
| "assigned (c # cs) s =
     (case c of AddLigne \<Rightarrow> [ligneId (addLigne s)] | _ \<Rightarrow> []) @ assigned cs (step c s)"

text \<open>
  The invariant of the builder: the ids in the list are pairwise distinct and none
  is above the counter.
\<close>

definition ids_ok :: "state \<Rightarrow> bool" where
  "ids_ok s \<longleftrightarrow>
     distinct (map lid (lignes s)) \<and> list_all (\<lambda>i. i \<le> ligneId s) (map lid (lignes s))"

section \<open>Numbers (the operators of lines 81 and 91-101)\<close>

text \<open>
  A JS Number is an IEEE-754 double. \<open>Num x\<close> is the finite double whose value is
  the rational \<open>x\<close>; the sign of a zero is not kept. The exact result of every
  operation is rounded by \<open>fl\<close>: to the nearest double, a tie to the even
  significand, with 53 significant bits, the subnormal spacing \<open>2 powi - 1074\<close>
  below \<open>2 powi - 1022\<close>, and overflow to an infinity from \<open>2 ^ 1024\<close> on.
\<close>

datatype jsnum = NaN | PosInf | NegInf | Num rat

definition round_even :: "rat \<Rightarrow> int" where
  "round_even x =
     (let f = \<lfloor>x\<rfloor>; r = x - of_int f
      in if r < 1 / 2 then f else if 1 / 2 < r then f + 1 else if even f then f else f + 1)"

text \<open>\<open>ilog2 x\<close> is the binary exponent of a positive \<open>x\<close>: \<open>2 powi ilog2 x \<le> x < 2 powi (ilog2 x + 1)\<close>.\<close>

definition ilog2 :: "rat \<Rightarrow> int" where
  "ilog2 x = (if 1 \<le> x then bitlen \<lfloor>x\<rfloor> - 1 else - bitlen (\<lceil>1 / x\<rceil> - 1))"

definition fl :: "rat \<Rightarrow> jsnum" where
  "fl x =
     (if x = 0 then Num 0
      else let e = max (ilog2 \<bar>x\<bar>) (- 1022);
               q = 2 powi (e - 52);
               y = of_int (round_even (x / q)) * q
           in if 2 ^ 1024 \<le> y then PosInf else if y \<le> - (2 ^ 1024) then NegInf else Num y)"

text \<open>The operators \<^verbatim>\<open>+\<close> and \<^verbatim>\<open>*\<close> on Numbers.\<close>

fun js_add :: "jsnum \<Rightarrow> jsnum \<Rightarrow> jsnum" where
  "js_add (Num a) (Num b) = fl (a + b)"
| "js_add NaN _ = NaN"
| "js_add _ NaN = NaN"
| "js_add PosInf NegInf = NaN"
| "js_add NegInf PosInf = NaN"
| "js_add PosInf _ = PosInf"
| "js_add _ PosInf = PosInf"
| "js_add NegInf _ = NegInf"
| "js_add _ NegInf = NegInf"

fun js_mul :: "jsnum \<Rightarrow> jsnum \<Rightarrow> jsnum" where
  "js_mul (Num a) (Num b) = fl (a * b)"
| "js_mul NaN _ = NaN"
| "js_mul _ NaN = NaN"
| "js_mul (Num a) PosInf = (if a = 0 then NaN else if 0 < a then PosInf else NegInf)"
| "js_mul (Num a) NegInf = (if a = 0 then NaN else if 0 < a then NegInf else PosInf)"
| "js_mul PosInf (Num b) = (if b = 0 then NaN else if 0 < b then PosInf else NegInf)"
| "js_mul NegInf (Num b) = (if b = 0 then NaN else if 0 < b then NegInf else PosInf)"
| "js_mul PosInf PosInf = PosInf"
| "js_mul PosInf NegInf = NegInf"
| "js_mul NegInf PosInf = NegInf"
| "js_mul NegInf NegInf = PosInf"

text \<open>
  The comparisons \<^verbatim>\<open><\<close> and \<^verbatim>\<open><=\<close> on Numbers (\<^verbatim>\<open>a > b\<close> is \<^verbatim>\<open>b < a\<close>). A
  comparison with \<^verbatim>\<open>NaN\<close> is false.
\<close>

fun js_lt :: "jsnum \<Rightarrow> jsnum \<Rightarrow> bool" where
  "js_lt (Num a) (Num b) \<longleftrightarrow> a < b"
| "js_lt NaN _ \<longleftrightarrow> False"
| "js_lt _ NaN \<longleftrightarrow> False"
| "js_lt PosInf _ \<longleftrightarrow> False"
| "js_lt _ NegInf \<longleftrightarrow> False"
| "js_lt NegInf _ \<longleftrightarrow> True"
| "js_lt _ PosInf \<longleftrightarrow> True"

fun js_le :: "jsnum \<Rightarrow> jsnum \<Rightarrow> bool" where
  "js_le (Num a) (Num b) \<longleftrightarrow> a \<le> b"
| "js_le NaN _ \<longleftrightarrow> False"
| "js_le _ NaN \<longleftrightarrow> False"
| "js_le NegInf _ \<longleftrightarrow> True"
| "js_le _ PosInf \<longleftrightarrow> True"
| "js_le PosInf _ \<longleftrightarrow> False"
| "js_le _ NegInf \<longleftrightarrow> False"

text \<open>
  \<open>nombre v\<close>: \<open>v\<close> is a value of the type Number, that is \<^verbatim>\<open>NaN\<close>, an
  infinity, or a rational that is a double (rounding leaves it as it is).
  \<open>negatif v\<close>: \<open>v\<close> is \<^verbatim>\<open>-Infinity\<close> or a rational not above
  \<open>- (2 powi - 1074)\<close>, the negative double closest to zero.
\<close>

definition nombre :: "jsnum \<Rightarrow> bool" where
  "nombre v \<longleftrightarrow> (case v of Num x \<Rightarrow> fl x = Num x | _ \<Rightarrow> True)"

definition negatif :: "jsnum \<Rightarrow> bool" where
  "negatif v \<longleftrightarrow> (case v of Num x \<Rightarrow> x \<le> - (2 powi (- 1074)) | NegInf \<Rightarrow> True | _ \<Rightarrow> False)"

section \<open>Package estimator (app.js, lines 42 and 86-102)\<close>

text \<open>
  \<^verbatim>\<open>const FORFAIT_CONFIG = { bulletinMoins20: 20, bulletinPlus20: 15, coffreFort: 2, entree: 15, sortie: 50 };\<close>
\<close>

record forfait_config =
  bulletinMoins20 :: jsnum
  bulletinPlus20 :: jsnum
  coffreFort :: jsnum
  entree :: jsnum
  sortie :: jsnum

definition FORFAIT_CONFIG :: forfait_config where
  "FORFAIT_CONFIG =
     \<lparr>bulletinMoins20 = Num 20, bulletinPlus20 = Num 15, coffreFort = Num 2,
      entree = Num 15, sortie = Num 50\<rparr>"

text \<open>
  \<^verbatim>\<open>calcForfait\<close> reads three number fields with \<^verbatim>\<open>parseInt(...) || 0\<close> and a
  checkbox. Its arguments here are the values of the constants \<^verbatim>\<open>n\<close>,
  \<^verbatim>\<open>entrees\<close>, \<^verbatim>\<open>sorties\<close> and \<^verbatim>\<open>coffre\<close> after these reads. The first
  three are Numbers: \<^verbatim>\<open>parseInt\<close> gives an integer of either sign, an infinity
  for a field of more than 308 digits, or \<^verbatim>\<open>NaN\<close>, which \<^verbatim>\<open>|| 0\<close> turns into 0
  (as it does a negative zero). The function has no error branch.

  Every product and every sum of lines 92-94 and 101 is an operation on doubles and
  rounds its exact result; \<^verbatim>\<open>total\<close> is the left-to-right sum
  \<^verbatim>\<open>((mBul + mCoffre) + mIn) + mOut\<close>.

  The result records every constant the function computes, the lines it writes to
  the details block (\<^verbatim>\<open>html\<close>: the bulletins line always, the others under their
  conditions) and the two totals it writes to the page. \<^verbatim>\<open>toFixed(2)\<close>, the
  formatting of the amounts, is not modelled.
\<close>

datatype result_line = Bulletins | Coffre_fort | Entrees | Sorties

record forfait =
  prixBul :: jsnum
  mBul :: jsnum
  mCoffre :: jsnum
  mIn :: jsnum
  mOut :: jsnum
  html :: "(result_line \<times> jsnum) list"
  forf_mens :: jsnum
  forf_an :: jsnum

definition calcForfait :: "jsnum \<Rightarrow> jsnum \<Rightarrow> jsnum \<Rightarrow> bool \<Rightarrow> forfait" where
  "calcForfait n entrees sorties coffre =
     (let prixBul = (if js_le n (Num 20) then bulletinMoins20 FORFAIT_CONFIG
                     else bulletinPlus20 FORFAIT_CONFIG);
          mBul = js_mul n prixBul;
          mCoffre = (if coffre then js_mul n (coffreFort FORFAIT_CONFIG) else Num 0);
          mIn = js_mul entrees (entree FORFAIT_CONFIG);
          mOut = js_mul sorties (sortie FORFAIT_CONFIG);
          total = js_add (js_add (js_add mBul mCoffre) mIn) mOut;
          html = [(Bulletins, mBul)]
            @ (if coffre then [(Coffre_fort, mCoffre)] else [])
            @ (if js_lt (Num 0) entrees then [(Entrees, mIn)] else [])
            @ (if js_lt (Num 0) sorties then [(Sorties, mOut)] else [])
      in \<lparr>prixBul = prixBul, mBul = mBul, mCoffre = mCoffre, mIn = mIn, mOut = mOut,
          html = html, forf_mens = total, forf_an = js_mul total (Num 12)\<rparr>)"

text \<open>
  The specification's words for the monthly total, over the integers and without
  rounding: \<open>n\<close> times the per-bulletin price, plus \<open>n\<close> times 2 when secure
  delivery is on, plus 15 per hire and 50 per exit.
\<close>

definition spec_monthly :: "int \<Rightarrow> int \<Rightarrow> int \<Rightarrow> bool \<Rightarrow> int" where
  "spec_monthly n h s c =
     n * (if n \<le> 20 then 20 else 15) + (if c then n * 2 else 0) + h * 15 + s * 50"

section \<open>Catalog and price grid (app.js, lines 1-40 and 104-111)\<close>

text \<open>
  \<^verbatim>\<open>TARIFS\<close> is an object literal of 38 properties. \<^verbatim>\<open>Object.entries\<close> lists
  them in definition order (no key is an array index), so the catalog is an
  association list in that order; the keys are pairwise distinct. A \<open>string\<close> is a
  list of bytes: the three characters of the table outside ASCII are written in
  UTF-8.
\<close>

abbreviation e_acute :: string where
  "e_acute \<equiv> [CHR 0xC3, CHR 0xA9]"

abbreviation o_circ :: string where
  "o_circ \<equiv> [CHR 0xC3, CHR 0xB4]"

abbreviation euro :: string where
  "euro \<equiv> [CHR 0xE2, CHR 0x82, CHR 0xAC]"

record prestation =
  libelle :: string
  tarif :: int
  unite :: string
  cat :: string

type_synonym item = "string \<times> prestation"

definition TARIFS :: "item list" where
  "TARIFS =
    [(''AUD-001'', \<lparr>libelle = ''Audit r'' @ e_acute @ ''glementaire de paie'', tarif = 120, unite = euro @ ''/h'', cat = ''Audit''\<rparr>),
     (''MIS-001'', \<lparr>libelle = ''Mise en place dossier paie'', tarif = 120, unite = euro @ ''/h'', cat = ''Audit''\<rparr>),
     (''REP-001'', \<lparr>libelle = ''Reprise de donn'' @ e_acute @ ''es paie'', tarif = 120, unite = euro @ ''/h'', cat = ''Audit''\<rparr>),
     (''BUL-001'', \<lparr>libelle = ''Bulletin (1-20 sal.)'', tarif = 20, unite = euro @ ''/bul'', cat = ''Bulletins''\<rparr>),
     (''BUL-004'', \<lparr>libelle = ''Bulletin (+20 sal.)'', tarif = 15, unite = euro @ ''/bul'', cat = ''Bulletins''\<rparr>),
     (''ENV-001'', \<lparr>libelle = ''Envoi coffre-fort'', tarif = 2, unite = euro @ ''/sal'', cat = ''Bulletins''\<rparr>),
     (''ENV-002'', \<lparr>libelle = ''Envoi papier'', tarif = 2, unite = euro @ ''/sal'', cat = ''Bulletins''\<rparr>),
     (''ENT-001'', \<lparr>libelle = ''Entr'' @ e_acute @ ''e salari'' @ e_acute, tarif = 15, unite = euro @ ''/sal'', cat = ''Gestion''\<rparr>),
     (''STC-001'', \<lparr>libelle = ''Sortie salari'' @ e_acute @ '' (STC)'', tarif = 50, unite = euro @ ''/sal'', cat = ''Gestion''\<rparr>),
     (''MED-001'', \<lparr>libelle = ''Affiliation m'' @ e_acute @ ''decine travail'', tarif = 45, unite = euro @ ''/soc'', cat = ''Gestion''\<rparr>),
     (''MUT-001'', \<lparr>libelle = ''Affiliation mutuelle'', tarif = 45, unite = euro @ ''/org'', cat = ''Gestion''\<rparr>),
     (''ATT-001'', \<lparr>libelle = ''Attestation maladie/AT'', tarif = 20, unite = euro @ ''/att'', cat = ''Gestion''\<rparr>),
     (''DAT-001'', \<lparr>libelle = ''D'' @ e_acute @ ''claration AT'', tarif = 30, unite = euro @ ''/d'' @ e_acute @ ''c'', cat = ''Gestion''\<rparr>),
     (''PRV-001'', \<lparr>libelle = ''Dossier pr'' @ e_acute @ ''voyance'', tarif = 45, unite = euro @ ''/dos'', cat = ''Gestion''\<rparr>),
     (''SIM-001'', \<lparr>libelle = ''Simulation salaire'', tarif = 50, unite = euro @ ''/sim'', cat = ''Gestion''\<rparr>),
     (''BTP-001'', \<lparr>libelle = ''D'' @ e_acute @ ''claration CP CI-BTP'', tarif = 20, unite = euro @ ''/sal'', cat = ''BTP''\<rparr>),
     (''BTP-002'', \<lparr>libelle = ''Ch'' @ o_circ @ ''mage intemp'' @ e_acute @ ''ries'', tarif = 20, unite = euro @ ''/sal'', cat = ''BTP''\<rparr>),
     (''BTP-003'', \<lparr>libelle = ''Radiation CI-BTP'', tarif = 20, unite = euro @ ''/sal'', cat = ''BTP''\<rparr>),
     (''CDI-001'', \<lparr>libelle = ''CDI'', tarif = 150, unite = euro @ ''/ctr'', cat = ''Contrats''\<rparr>),
     (''CDD-001'', \<lparr>libelle = ''CDD'', tarif = 100, unite = euro @ ''/ctr'', cat = ''Contrats''\<rparr>),
     (''SAI-001'', \<lparr>libelle = ''Contrat saisonnier'', tarif = 120, unite = euro @ ''/ctr'', cat = ''Contrats''\<rparr>),
     (''AVE-001'', \<lparr>libelle = ''Avenant (Nexus)'', tarif = 70, unite = euro @ ''/ave'', cat = ''Contrats''\<rparr>),
     (''AVE-002'', \<lparr>libelle = ''Avenant (externe)'', tarif = 80, unite = euro @ ''/ave'', cat = ''Contrats''\<rparr>),
     (''DUE-001'', \<lparr>libelle = ''DUE Pr'' @ e_acute @ ''voyance'', tarif = 200, unite = euro @ ''/doc'', cat = ''DUE''\<rparr>),
     (''DUE-002'', \<lparr>libelle = ''DUE Frais de sant'' @ e_acute, tarif = 200, unite = euro @ ''/doc'', cat = ''DUE''\<rparr>),
     (''DUE-003'', \<lparr>libelle = ''DUE Retraite sup.'', tarif = 200, unite = euro @ ''/doc'', cat = ''DUE''\<rparr>),
     (''DUE-004'', \<lparr>libelle = ''DUE PPV'', tarif = 275, unite = euro @ ''/doc'', cat = ''DUE''\<rparr>),
     (''RUP-001'', \<lparr>libelle = ''Rupture conventionnelle'', tarif = 350, unite = euro @ ''/dos'', cat = ''Ruptures''\<rparr>),
     (''LIC-001'', \<lparr>libelle = ''Licenciement faute grave'', tarif = 200, unite = euro @ ''/dos'', cat = ''Ruptures''\<rparr>),
     (''LIC-002'', \<lparr>libelle = ''Abandon de poste'', tarif = 170, unite = euro @ ''/dos'', cat = ''Ruptures''\<rparr>),
     (''LIC-003'', \<lparr>libelle = ''Inaptitude'', tarif = 500, unite = euro @ ''/dos'', cat = ''Ruptures''\<rparr>),
     (''LIC-004'', \<lparr>libelle = ''Licenciement '' @ e_acute @ ''co.'', tarif = 750, unite = euro @ ''/dos'', cat = ''Ruptures''\<rparr>),
     (''IND-001'', \<lparr>libelle = ''Indemnit'' @ e_acute @ '' retraite'', tarif = 110, unite = euro @ ''/calc'', cat = ''Indemnit'' @ e_acute @ ''s''\<rparr>),
     (''IND-002'', \<lparr>libelle = ''Indemnit'' @ e_acute @ '' rup. conv.'', tarif = 165, unite = euro @ ''/calc'', cat = ''Indemnit'' @ e_acute @ ''s''\<rparr>),
     (''IND-003'', \<lparr>libelle = ''Indemnit'' @ e_acute @ '' inaptitude'', tarif = 220, unite = euro @ ''/calc'', cat = ''Indemnit'' @ e_acute @ ''s''\<rparr>),
     (''IND-004'', \<lparr>libelle = ''Indemnit'' @ e_acute @ '' lic. '' @ e_acute @ ''co.'', tarif = 330, unite = euro @ ''/calc'', cat = ''Indemnit'' @ e_acute @ ''s''\<rparr>),
     (''CON-001'', \<lparr>libelle = ''Conseil RH'', tarif = 120, unite = euro @ ''/h'', cat = ''Autres''\<rparr>),
     (''FOR-001'', \<lparr>libelle = ''Dossier OPCO'', tarif = 150, unite = euro @ ''/dos'', cat = ''Autres''\<rparr>)]"

text \<open>
  \<^verbatim>\<open>renderGrille\<close> groups the entries in a fresh object \<^verbatim>\<open>cats\<close>:
  \<^verbatim>\<open>Object.entries(TARIFS).forEach(([ref, t]) => {
    if (!cats[t.cat]) cats[t.cat] = []; cats[t.cat].push({ ref, ...t }); });\<close>
  \<^verbatim>\<open>cats\<close> is an association list in insertion order, which is the order
  \<^verbatim>\<open>Object.entries(cats)\<close> walks it in (the category names are not array indices,
  and none is a property that \<^verbatim>\<open>{}\<close> inherits). The pushed object
  \<^verbatim>\<open>{ ref, ...t }\<close> is the entry itself, key and fields. \<open>push_entry\<close> is one
  round of the loop; \<open>renderGrille\<close> is the structure written to the page: per
  category its title and, per item, code, label, price and unit.
\<close>

type_synonym cats = "(string \<times> item list) list"

definition push_entry :: "cats \<Rightarrow> item \<Rightarrow> cats" where
  "push_entry cats e =
     (let c = cat (snd e);
          cats' = (if map_of cats c = None then cats @ [(c, [])] else cats)
      in map (\<lambda>(k, items). if k = c then (k, items @ [e]) else (k, items)) cats')"

definition cats_of :: "item list \<Rightarrow> cats" where
  "cats_of entries = foldl push_entry [] entries"

definition renderGrille :: "(string \<times> (string \<times> string \<times> int \<times> string) list) list" where
  "renderGrille =
     map (\<lambda>(c, items). (c, map (\<lambda>(r, t). (r, libelle t, tarif t, unite t)) items))
       (cats_of TARIFS)"

text \<open>
  The specification's words for the order of the groups: the categories in the
  order in which they are first seen.
\<close>

fun first_seen :: "'a list \<Rightarrow> 'a list" where
  "first_seen [] = []"
| "first_seen (x # xs) = x # removeAll x (first_seen xs)"

section \<open>Quote total (app.js, lines 80-84)\<close>

text \<open>
  The total is a Number, computed with the operators above. A negative zero, which
  the model does not tell from zero, cannot reach it: the sum starts at \<^verbatim>\<open>0\<close>,
  and \<^verbatim>\<open>0 + -0\<close> is \<^verbatim>\<open>0\<close>.
\<close>

text \<open>
  The built-in \<^verbatim>\<open>parseFloat\<close>: skip leading white space, read the longest prefix
  that is a decimal literal (an optional sign, then \<^verbatim>\<open>Infinity\<close>, or digits with
  an optional fraction and an optional exponent), and return its value rounded to a
  double; \<^verbatim>\<open>NaN\<close> when there is no such prefix. White space is the ASCII white
  space (the Unicode space characters are not modelled), and the value is rounded
  correctly whatever the number of digits, as the engines in use do.
\<close>

definition is_space :: "char \<Rightarrow> bool" where
  "is_space c \<longleftrightarrow> c \<in> set [CHR 0x09, CHR 0x0A, CHR 0x0B, CHR 0x0C, CHR 0x0D, CHR 0x20]"

definition is_digit :: "char \<Rightarrow> bool" where
  "is_digit c \<longleftrightarrow> c \<in> set ''0123456789''"

definition digits_val :: "string \<Rightarrow> int" where
  "digits_val ds = foldl (\<lambda>a c. 10 * a + (of_char c - 48)) 0 ds"

definition split_sign :: "string \<Rightarrow> int \<times> string" where
  "split_sign s =
     (case s of
        [] \<Rightarrow> (1, [])
      | c # r \<Rightarrow> if c = CHR ''-'' then (- 1, r) else if c = CHR ''+'' then (1, r) else (1, s))"

definition exponent_part :: "string \<Rightarrow> int" where
  "exponent_part s =
     (case s of
        [] \<Rightarrow> 0
      | c # r \<Rightarrow>
          if c = CHR ''e'' \<or> c = CHR ''E''
          then (let (sg, r') = split_sign r; ds = takeWhile is_digit r'
                in if ds = [] then 0 else sg * digits_val ds)
          else 0)"

definition parseFloat :: "string \<Rightarrow> jsnum" where
  "parseFloat inputString =
     (let trimmed = dropWhile is_space inputString;
          (sg, u) = split_sign trimmed
      in if take 8 u = ''Infinity'' then (if sg < 0 then NegInf else PosInf)
         else let ip = takeWhile is_digit u;
                  r1 = dropWhile is_digit u;
                  (fp, r2) = (case r1 of
                      [] \<Rightarrow> ([], [])
                    | c # r \<Rightarrow> if c = CHR ''.''
                        then (takeWhile is_digit r, dropWhile is_digit r) else ([], r1))
              in if ip = [] \<and> fp = [] then NaN
                 else fl (of_int sg
                        * (of_int (digits_val ip) + of_int (digits_val fp) / 10 ^ length fp)
                        * 10 powi exponent_part r2))"

text \<open>
  \<^verbatim>\<open>TARIFS[l.ref]\<close> is the catalog entry when \<^verbatim>\<open>l.ref\<close> is one of its keys. For
  a name that the object literal inherits from \<^verbatim>\<open>Object.prototype\<close> the lookup
  gives that inherited member, which is truthy and has no property \<^verbatim>\<open>tarif\<close>;
  for any other string it gives \<^verbatim>\<open>undefined\<close>. \<open>tarif_of\<close> is the operand
  \<^verbatim>\<open>TARIFS[l.ref].tarif\<close> of the product as a Number: the price of an entry, and
  \<^verbatim>\<open>NaN\<close> for the missing property of an inherited member (\<^verbatim>\<open>undefined\<close>
  converts to \<^verbatim>\<open>NaN\<close>). The callback reads it behind its guard only, so never
  for \<^verbatim>\<open>undefined\<close>, where the property access would throw.
\<close>

datatype member = Undefined | Entry prestation | Inherited

definition Object_prototype :: "string list" where
  "Object_prototype =
     [''constructor'', ''hasOwnProperty'', ''isPrototypeOf'', ''propertyIsEnumerable'',
      ''toLocaleString'', ''toString'', ''valueOf'', ''__proto__'', ''__defineGetter__'',
      ''__defineSetter__'', ''__lookupGetter__'', ''__lookupSetter__'']"

definition TARIFS_get :: "string \<Rightarrow> member" where
  "TARIFS_get r =
     (case map_of TARIFS r of
        Some t \<Rightarrow> Entry t
      | None \<Rightarrow> if r \<in> set Object_prototype then Inherited else Undefined)"

fun truthy :: "member \<Rightarrow> bool" where
  "truthy Undefined = False"
| "truthy (Entry t) = True"
| "truthy Inherited = True"

fun tarif_of :: "member \<Rightarrow> jsnum" where
  "tarif_of (Entry t) = Num (of_int (tarif t))"
| "tarif_of Inherited = NaN"
| "tarif_of Undefined = NaN"

text \<open>
  \<^verbatim>\<open>const total = lignes.reduce((sum, l) =>
     l.ref && l.qte && TARIFS[l.ref] ? sum + (TARIFS[l.ref].tarif * parseFloat(l.qte || 0)) : sum, 0);\<close>

  A string is truthy when it is not empty. \<open>ajoute\<close> is the callback of
  \<^verbatim>\<open>reduce\<close> (its accumulator \<^verbatim>\<open>sum\<close> is \<open>somme\<close> here, \<open>sum\<close> being a HOL
  constant) and \<open>calcTotal\<close> is the constant \<^verbatim>\<open>total\<close>. The function then writes
  \<^verbatim>\<open>total.toFixed(2)\<close> and the currency sign into the two total fields; this
  formatting is not modelled.
\<close>

definition ajoute :: "jsnum \<Rightarrow> ligne \<Rightarrow> jsnum" where
  "ajoute somme l =
     (if ref l \<noteq> [] \<and> qte l \<noteq> [] \<and> truthy (TARIFS_get (ref l))
      then js_add somme
             (js_mul (tarif_of (TARIFS_get (ref l)))
                (parseFloat (if qte l \<noteq> [] then qte l else ''0'')))
      else somme)"

definition calcTotal :: "ligne list \<Rightarrow> jsnum" where
  "calcTotal ls = foldl ajoute (Num 0) ls"

text \<open>
  What one line adds to the total: nothing when the guard of the callback fails,
  else the product. \<open>montant_demi\<close> holds of a line that adds nothing or a
  multiple of one half (as a whole or half quantity at an integer price does), and
  \<open>demis\<close> is that amount counted in halves.
\<close>

definition montant :: "ligne \<Rightarrow> jsnum option" where
  "montant l =
     (if ref l \<noteq> [] \<and> qte l \<noteq> [] \<and> truthy (TARIFS_get (ref l))
      then Some (js_mul (tarif_of (TARIFS_get (ref l)))
                   (parseFloat (if qte l \<noteq> [] then qte l else ''0'')))
      else None)"

definition montant_demi :: "ligne \<Rightarrow> bool" where
  "montant_demi l \<longleftrightarrow>
     (case montant l of
        None \<Rightarrow> True
      | Some (Num x) \<Rightarrow> 2 * x = of_int \<lfloor>2 * x\<rfloor>
      | Some _ \<Rightarrow> False)"

definition demis :: "ligne \<Rightarrow> int" where
  "demis l = (case montant l of Some (Num x) \<Rightarrow> \<lfloor>2 * x\<rfloor> | _ \<Rightarrow> 0)"

section \<open>Quote builder: lemmas\<close>

lemma lid_set_field [simp]: "lid (set_field f v l) = lid l"
  by (cases f) simp_all

lemma map_lid_assign_first [simp]: "map lid (assign_first i f v ls) = map lid ls"
  by (induction ls) simp_all

lemma length_assign_first [simp]: "length (assign_first i f v ls) = length ls"
  by (induction ls) simp_all

lemma assign_first_no_match:
  "\<forall>l \<in> set ls. lid l \<noteq> i \<Longrightarrow> assign_first i f v ls = ls"
  by (induction ls) simp_all

lemma lignes_updateLigne: "lignes (updateLigne i f v s) = assign_first i f v (lignes s)"
proof (cases "find (\<lambda>l. lid l = i) (lignes s)")
  case None
  then have "\<forall>l \<in> set (lignes s). lid l \<noteq> i"
    by (simp add: find_None_iff)
  then have "assign_first i f v (lignes s) = lignes s"
    by (rule assign_first_no_match)
  with None show ?thesis
    by (simp add: updateLigne_def)
next
  case (Some l)
  then show ?thesis
    by (simp add: updateLigne_def)
qed

lemma ligneId_updateLigne [simp]: "ligneId (updateLigne i f v s) = ligneId s"
  by (simp add: updateLigne_def split: option.splits)

lemma ligneId_removeLigne [simp]: "ligneId (removeLigne i s) = ligneId s"
  by (simp add: removeLigne_def)

lemma ligneId_addLigne [simp]: "ligneId (addLigne s) = ligneId s + 1"
  by (simp add: addLigne_def Let_def)

lemma lignes_addLigne:
  "lignes (addLigne s) = lignes s @ [\<lparr>lid = ligneId s + 1, ref = [], qte = []\<rparr>]"
  by (simp add: addLigne_def Let_def)

lemma ligneId_step_mono: "ligneId s \<le> ligneId (step c s)"
  by (cases c) simp_all

lemma ids_ok_step: "ids_ok s \<Longrightarrow> ids_ok (step c s)"
proof (cases c)
  case AddLigne
  assume "ids_ok s"
  then have d: "distinct (map lid (lignes s))" and b: "\<forall>l \<in> set (lignes s). lid l \<le> ligneId s"
    by (simp_all add: ids_ok_def list_all_iff)
  from b have "ligneId s + 1 \<notin> lid ` set (lignes s)"
    by fastforce
  with d b AddLigne show ?thesis
    by (auto simp: ids_ok_def list_all_iff lignes_addLigne)
next
  case (RemoveLigne i)
  assume "ids_ok s"
  with RemoveLigne show ?thesis
    by (auto simp: ids_ok_def list_all_iff removeLigne_def distinct_map_filter)
next
  case (UpdateLigne i f v)
  assume "ids_ok s"
  with UpdateLigne show ?thesis
    by (simp add: ids_ok_def lignes_updateLigne)
qed

lemma ids_ok_run: "ids_ok s \<Longrightarrow> ids_ok (run cs s)"
  by (induction cs arbitrary: s) (simp_all add: ids_ok_step)

lemma ids_ok_init: "ids_ok init"
  by (simp add: ids_ok_def init_def)

lemma filter_lid_nonempty:
  assumes "distinct (map lid ls)" and "length ls > 1"
  shows "filter (\<lambda>l. lid l \<noteq> i) ls \<noteq> []"
proof
  assume "filter (\<lambda>l. lid l \<noteq> i) ls = []"
  then have "\<forall>l \<in> set ls. lid l = i"
    by (simp add: filter_empty_conv)
  then have "set (map lid ls) \<subseteq> {i}"
    by auto
  then have "card (set (map lid ls)) \<le> card {i}"
    by (intro card_mono) simp_all
  moreover from assms have "card (set (map lid ls)) = length ls"
    by (metis distinct_card length_map)
  ultimately show False
    using assms by simp
qed

lemma nonempty_step: "ids_ok s \<Longrightarrow> lignes s \<noteq> [] \<Longrightarrow> lignes (step c s) \<noteq> []"
proof (cases c)
  case AddLigne
  then show ?thesis
    by (simp add: lignes_addLigne)
next
  case (RemoveLigne i)
  assume ok: "ids_ok s" and ne: "lignes s \<noteq> []"
  show ?thesis
  proof (cases "length (lignes s) > 1")
    case True
    with ok have "filter (\<lambda>l. lid l \<noteq> i) (lignes s) \<noteq> []"
      by (simp add: filter_lid_nonempty ids_ok_def)
    with True RemoveLigne show ?thesis
      by (simp add: removeLigne_def)
  next
    case False
    with ne RemoveLigne show ?thesis
      by (simp add: removeLigne_def)
  qed
next
  case (UpdateLigne i f v)
  assume "lignes s \<noteq> []"
  then have "length (assign_first i f v (lignes s)) \<noteq> 0"
    by simp
  then have "assign_first i f v (lignes s) \<noteq> []"
    by (simp del: length_assign_first)
  with UpdateLigne show ?thesis
    by (simp add: lignes_updateLigne)
qed

lemma nonempty_run: "ids_ok s \<Longrightarrow> lignes s \<noteq> [] \<Longrightarrow> lignes (run cs s) \<noteq> []"
proof (induction cs arbitrary: s)
  case Nil
  then show ?case by simp
next
  case (Cons c cs)
  then show ?case
    by (simp add: ids_ok_step nonempty_step)
qed

lemma ligneId_run_mono: "ligneId s \<le> ligneId (run cs s)"
proof (induction cs arbitrary: s)
  case Nil
  show ?case by simp
next
  case (Cons c cs)
  have "ligneId s \<le> ligneId (step c s)"
    by (rule ligneId_step_mono)
  also have "\<dots> \<le> ligneId (run cs (step c s))"
    by (rule Cons.IH)
  finally show ?case by simp
qed

lemma assigned_bounds:
  "list_all (\<lambda>i. ligneId s < i \<and> i \<le> ligneId (run cs s)) (assigned cs s)"
proof (induction cs arbitrary: s)
  case Nil
  show ?case by simp
next
  case (Cons c cs)
  have up: "ligneId (step c s) \<le> ligneId (run cs (step c s))"
    by (rule ligneId_run_mono)
  have lo: "ligneId s \<le> ligneId (step c s)"
    by (rule ligneId_step_mono)
  from Cons.IH [of "step c s"] lo
  have tl: "list_all (\<lambda>i. ligneId s < i \<and> i \<le> ligneId (run cs (step c s))) (assigned cs (step c s))"
    by (auto simp: list_all_iff)
  show ?case
  proof (cases c)
    case AddLigne
    with up tl show ?thesis by simp
  next
    case (RemoveLigne i)
    with tl show ?thesis by simp
  next
    case (UpdateLigne i f v)
    with tl show ?thesis by simp
  qed
qed

lemma distinct_remove_one:
  assumes "distinct (map lid ls)" and "i \<in> set (map lid ls)"
  shows "\<exists>ys l zs. ls = ys @ l # zs \<and> lid l = i \<and> filter (\<lambda>l. lid l \<noteq> i) ls = ys @ zs"
proof -
  from assms(2) obtain l where l: "l \<in> set ls" "lid l = i"
    by auto
  then obtain ys zs where split: "ls = ys @ l # zs"
    by (auto simp: in_set_conv_decomp)
  with assms(1) l have "i \<notin> lid ` set ys" and "i \<notin> lid ` set zs"
    by auto
  then have "\<forall>x \<in> set ys. lid x \<noteq> i" and "\<forall>x \<in> set zs. lid x \<noteq> i"
    by blast+
  then have "filter (\<lambda>l. lid l \<noteq> i) ys = ys" and "filter (\<lambda>l. lid l \<noteq> i) zs = zs"
    by (simp_all add: filter_id_conv)
  with split l show ?thesis
    by auto
qed

lemma assign_first_match:
  "\<not> list_all (\<lambda>l. lid l \<noteq> i) ls \<Longrightarrow>
     \<exists>k < length ls. lid (ls ! k) = i \<and> (\<forall>j < k. lid (ls ! j) \<noteq> i)
        \<and> assign_first i f v ls = ls[k := set_field f v (ls ! k)]"
proof (induction ls)
  case Nil
  then show ?case by simp
next
  case (Cons l ls)
  show ?case
  proof (cases "lid l = i")
    case True
    then have "0 < length (l # ls) \<and> lid ((l # ls) ! 0) = i \<and> (\<forall>j < 0. lid ((l # ls) ! j) \<noteq> i)
        \<and> assign_first i f v (l # ls) = (l # ls)[0 := set_field f v ((l # ls) ! 0)]"
      by simp
    then show ?thesis by blast
  next
    case False
    with Cons.prems have "\<not> list_all (\<lambda>l. lid l \<noteq> i) ls"
      by simp
    with Cons.IH obtain k where k: "k < length ls" "lid (ls ! k) = i" "\<forall>j < k. lid (ls ! j) \<noteq> i"
      "assign_first i f v ls = ls[k := set_field f v (ls ! k)]"
      by blast
    have "\<forall>j < Suc k. lid ((l # ls) ! j) \<noteq> i"
    proof (intro allI impI)
      fix j assume "j < Suc k"
      with k(3) False show "lid ((l # ls) ! j) \<noteq> i"
        by (cases j) simp_all
    qed
    with k False have "Suc k < length (l # ls) \<and> lid ((l # ls) ! Suc k) = i
        \<and> (\<forall>j < Suc k. lid ((l # ls) ! j) \<noteq> i)
        \<and> assign_first i f v (l # ls) = (l # ls)[Suc k := set_field f v ((l # ls) ! Suc k)]"
      by simp
    then show ?thesis by blast
  qed
qed

section \<open>Quote builder: the claims\<close>

text \<open>
  C4: starting from any state of the builder with at least one line item, after any
  finite sequence of addLigne and removeLigne calls (updateLigne calls may be mixed
  in) the line-item list is non-empty: removeLigne takes the lines with the id out
  only when the list holds more than one line item, and is a no-op otherwise. The
  states of the builder are those that a run of its calls reaches from the declared
  globals; in them the ids of the lines are pairwise distinct (\<open>ids_ok\<close>), so a
  removal from two lines or more leaves a line.
\<close>

theorem lignes_never_empty:
  "lignes (run pre init) \<noteq> [] \<Longrightarrow>
     lignes (run cs (run pre init)) \<noteq> []
     \<and> (\<forall>i t. length (lignes t) \<le> 1 \<longrightarrow> removeLigne i t = t)
     \<and> (\<forall>i t. 1 < length (lignes t) \<longrightarrow>
          removeLigne i t = t\<lparr>lignes := filter (\<lambda>l. lid l \<noteq> i) (lignes t)\<rparr>)"
proof -
  assume ne: "lignes (run pre init) \<noteq> []"
  have "ids_ok (run pre init)"
    by (simp add: ids_ok_run ids_ok_init)
  from this ne have "lignes (run cs (run pre init)) \<noteq> []"
    by (rule nonempty_run)
  then show ?thesis
    by (simp add: removeLigne_def)
qed

theorem lignes_never_empty_witness:
  "lignes (run [AddLigne] init) \<noteq> []
   \<and> lignes (run [AddLigne, RemoveLigne 1, RemoveLigne 2, RemoveLigne 7] (run [AddLigne] init))
       = [\<lparr>lid = 2, ref = [], qte = []\<rparr>]
   \<and> lignes (run [AddLigne, RemoveLigne 1, RemoveLigne 2, RemoveLigne 7] (run [AddLigne] init))
       \<noteq> []
   \<and> removeLigne 2 (run [AddLigne, RemoveLigne 1] (run [AddLigne] init))
       = run [AddLigne, RemoveLigne 1] (run [AddLigne] init)"
proof -
  have ne: "lignes (run [AddLigne] init) \<noteq> []"
    by (simp add: init_def addLigne_def Let_def)
  have ev: "lignes (run [AddLigne, RemoveLigne 1, RemoveLigne 2, RemoveLigne 7] (run [AddLigne] init))
       = [\<lparr>lid = 2, ref = [], qte = []\<rparr>]"
    by (simp add: init_def addLigne_def removeLigne_def Let_def)
  have len: "length (lignes (run [AddLigne, RemoveLigne 1] (run [AddLigne] init))) \<le> 1"
    by (simp add: init_def addLigne_def removeLigne_def Let_def)
  from lignes_never_empty [OF ne, of "[AddLigne, RemoveLigne 1, RemoveLigne 2, RemoveLigne 7]"]
  have fin: "lignes (run [AddLigne, RemoveLigne 1, RemoveLigne 2, RemoveLigne 7] (run [AddLigne] init))
       \<noteq> []"
    and noop: "\<forall>i t. length (lignes t) \<le> 1 \<longrightarrow> removeLigne i t = t"
    by blast+
  from noop len
  have "removeLigne 2 (run [AddLigne, RemoveLigne 1] (run [AddLigne] init))
       = run [AddLigne, RemoveLigne 1] (run [AddLigne] init)"
    by blast
  with ne ev fin show ?thesis
    by blast
qed

text \<open>
  C5: for every state and every call updateLine(id, field, value): if no line item
  has the given id, the state is unchanged; otherwise the first line item with that
  id, at position \<open>k\<close>, gets the named field set to the value, and nothing else
  changes: the list is the old list with position \<open>k\<close> replaced, so every other
  line, the length and the order are the same, and in the replaced line the id and
  the other field are the same. The id counter is unchanged as well.
\<close>

theorem updateLigne_frame:
  "(list_all (\<lambda>l. lid l \<noteq> i) (lignes s) \<longrightarrow> updateLigne i f v s = s)
   \<and> (\<not> list_all (\<lambda>l. lid l \<noteq> i) (lignes s) \<longrightarrow>
        (\<exists>k < length (lignes s). lid (lignes s ! k) = i \<and> (\<forall>j < k. lid (lignes s ! j) \<noteq> i)
           \<and> lignes (updateLigne i f v s) = (lignes s)[k := set_field f v (lignes s ! k)]))
   \<and> length (lignes (updateLigne i f v s)) = length (lignes s)
   \<and> map lid (lignes (updateLigne i f v s)) = map lid (lignes s)
   \<and> ligneId (updateLigne i f v s) = ligneId s
   \<and> set_field Ref v l = \<lparr>lid = lid l, ref = v, qte = qte l\<rparr>
   \<and> set_field Qte v l = \<lparr>lid = lid l, ref = ref l, qte = v\<rparr>"
proof -
  have "updateLigne i f v s = s" if "list_all (\<lambda>l. lid l \<noteq> i) (lignes s)"
  proof -
    from that have "find (\<lambda>l. lid l = i) (lignes s) = None"
      by (simp add: find_None_iff list_all_iff)
    then show ?thesis
      by (simp add: updateLigne_def)
  qed
  moreover have "\<exists>k < length (lignes s). lid (lignes s ! k) = i \<and> (\<forall>j < k. lid (lignes s ! j) \<noteq> i)
           \<and> lignes (updateLigne i f v s) = (lignes s)[k := set_field f v (lignes s ! k)]"
    if "\<not> list_all (\<lambda>l. lid l \<noteq> i) (lignes s)"
    using assign_first_match [OF that] by (simp add: lignes_updateLigne)
  ultimately show ?thesis
    by (simp add: lignes_updateLigne)
qed

theorem updateLigne_frame_witness:
  "updateLigne 9 Qte ''3'' (run [AddLigne, AddLigne] init) = run [AddLigne, AddLigne] init
   \<and> lignes (updateLigne 2 Qte ''3'' (run [AddLigne, AddLigne] init))
       = [\<lparr>lid = 1, ref = [], qte = []\<rparr>, \<lparr>lid = 2, ref = [], qte = ''3''\<rparr>]"
proof -
  have l: "lignes (run [AddLigne, AddLigne] init)
      = [\<lparr>lid = 1, ref = [], qte = []\<rparr>, \<lparr>lid = 2, ref = [], qte = []\<rparr>]"
    by (simp add: init_def addLigne_def Let_def)
  have none: "list_all (\<lambda>l. lid l \<noteq> 9) (lignes (run [AddLigne, AddLigne] init))"
    unfolding l by simp
  have some: "\<not> list_all (\<lambda>l. lid l \<noteq> 2) (lignes (run [AddLigne, AddLigne] init))"
    unfolding l by simp
  from updateLigne_frame [of 9 "run [AddLigne, AddLigne] init" Qte "''3''"] none
  have a: "updateLigne 9 Qte ''3'' (run [AddLigne, AddLigne] init) = run [AddLigne, AddLigne] init"
    by blast
  from updateLigne_frame [of 2 "run [AddLigne, AddLigne] init" Qte "''3''"] some
  obtain k where k: "k < length (lignes (run [AddLigne, AddLigne] init))"
      "lid (lignes (run [AddLigne, AddLigne] init) ! k) = 2"
      "lignes (updateLigne 2 Qte ''3'' (run [AddLigne, AddLigne] init))
         = (lignes (run [AddLigne, AddLigne] init))[k := set_field Qte ''3'' (lignes (run [AddLigne, AddLigne] init) ! k)]"
    by blast
  from k(1,2) have "k = 1"
    unfolding l by (cases k) simp_all
  with k(3) have "lignes (updateLigne 2 Qte ''3'' (run [AddLigne, AddLigne] init))
       = [\<lparr>lid = 1, ref = [], qte = []\<rparr>, \<lparr>lid = 2, ref = [], qte = ''3''\<rparr>]"
    unfolding l by simp
  with a show ?thesis
    by blast
qed

text \<open>
  C8: every call of addLigne appends, at the end of the list, a new line item with
  empty service code, empty quantity and the id \<open>ligneId + 1\<close>; in a run of calls
  from the start-up state this id is strictly greater than every id the run has
  handed out before (and than every id in the list), and after any such run the
  ids in the list are pairwise distinct.
\<close>

theorem addLigne_fresh_id:
  "lignes (addLigne s) = lignes s @ [\<lparr>lid = ligneId s + 1, ref = [], qte = []\<rparr>]
   \<and> ligneId (addLigne s) = ligneId s + 1
   \<and> list_all (\<lambda>i. i < ligneId (run cs init) + 1) (assigned cs init)
   \<and> list_all (\<lambda>i. i < ligneId (run cs init) + 1) (map lid (lignes (run cs init)))
   \<and> distinct (map lid (lignes (run cs init)))
   \<and> distinct (map lid (lignes (addLigne (run cs init))))"
proof -
  have "list_all (\<lambda>i. ligneId init < i \<and> i \<le> ligneId (run cs init)) (assigned cs init)"
    by (rule assigned_bounds)
  then have a: "list_all (\<lambda>i. i < ligneId (run cs init) + 1) (assigned cs init)"
    by (auto simp: list_all_iff)
  have ok: "ids_ok (run cs init)"
    by (simp add: ids_ok_run ids_ok_init)
  then have b: "list_all (\<lambda>i. i < ligneId (run cs init) + 1) (map lid (lignes (run cs init)))"
    by (auto simp: ids_ok_def list_all_iff)
  from ok have "ids_ok (step AddLigne (run cs init))"
    by (rule ids_ok_step)
  with ok a b show ?thesis
    by (simp add: ids_ok_def lignes_addLigne)
qed

text \<open>
  C9: for every state of the builder with more than one line item, removeLigne with
  an id that matches no line item leaves the state unchanged; and when the id
  matches a line item, exactly that one line is removed: the list \<open>ys @ l # zs\<close>,
  where \<open>l\<close> is the line with the id, becomes \<open>ys @ zs\<close>, so that all
  remaining lines keep their contents and relative order, and none of them carries
  the id. The id counter is unchanged. The states of the builder are those that a
  run of its calls reaches from the declared globals.
\<close>

theorem removeLigne_frame:
  "s = run cs init \<Longrightarrow> 1 < length (lignes s) \<Longrightarrow>
     (list_all (\<lambda>l. lid l \<noteq> i) (lignes s) \<longrightarrow> removeLigne i s = s)
     \<and> (\<not> list_all (\<lambda>l. lid l \<noteq> i) (lignes s) \<longrightarrow>
          (\<exists>ys l zs. lignes s = ys @ l # zs \<and> lid l = i
             \<and> lignes (removeLigne i s) = ys @ zs
             \<and> list_all (\<lambda>l. lid l \<noteq> i) (ys @ zs)))
     \<and> ligneId (removeLigne i s) = ligneId s"
proof -
  assume s: "s = run cs init" and len: "1 < length (lignes s)"
  have "ids_ok (run cs init)"
    by (simp add: ids_ok_run ids_ok_init)
  with s have d: "distinct (map lid (lignes s))"
    by (simp add: ids_ok_def)
  from len have f: "lignes (removeLigne i s) = filter (\<lambda>l. lid l \<noteq> i) (lignes s)"
    by (simp add: removeLigne_def)
  have "removeLigne i s = s" if "list_all (\<lambda>l. lid l \<noteq> i) (lignes s)"
  proof -
    from that have "filter (\<lambda>l. lid l \<noteq> i) (lignes s) = lignes s"
      by (simp add: filter_id_conv list_all_iff)
    then show ?thesis
      by (simp add: removeLigne_def)
  qed
  moreover have "\<exists>ys l zs. lignes s = ys @ l # zs \<and> lid l = i
      \<and> lignes (removeLigne i s) = ys @ zs \<and> list_all (\<lambda>l. lid l \<noteq> i) (ys @ zs)"
    if "\<not> list_all (\<lambda>l. lid l \<noteq> i) (lignes s)"
  proof -
    from that have "i \<in> set (map lid (lignes s))"
      by (auto simp: list_all_iff)
    with d obtain ys l zs where split: "lignes s = ys @ l # zs" "lid l = i"
        "filter (\<lambda>l. lid l \<noteq> i) (lignes s) = ys @ zs"
      using distinct_remove_one by blast
    have "list_all (\<lambda>l. lid l \<noteq> i) (filter (\<lambda>l. lid l \<noteq> i) (lignes s))"
      by (simp add: list_all_iff)
    then have "list_all (\<lambda>l. lid l \<noteq> i) (ys @ zs)"
      by (simp only: split(3))
    with split f show ?thesis
      by auto
  qed
  ultimately show ?thesis
    by simp
qed

theorem removeLigne_frame_witness:
  "1 < length (lignes (run [AddLigne, AddLigne, AddLigne] init))
   \<and> removeLigne 9 (run [AddLigne, AddLigne, AddLigne] init) = run [AddLigne, AddLigne, AddLigne] init
   \<and> length (lignes (removeLigne 2 (run [AddLigne, AddLigne, AddLigne] init))) = 2
   \<and> lignes (removeLigne 2 (run [AddLigne, AddLigne, AddLigne] init))
       = [\<lparr>lid = 1, ref = [], qte = []\<rparr>, \<lparr>lid = 3, ref = [], qte = []\<rparr>]"
proof -
  have l: "lignes (run [AddLigne, AddLigne, AddLigne] init)
      = [\<lparr>lid = 1, ref = [], qte = []\<rparr>, \<lparr>lid = 2, ref = [], qte = []\<rparr>, \<lparr>lid = 3, ref = [], qte = []\<rparr>]"
    by (simp add: init_def addLigne_def Let_def)
  have len: "1 < length (lignes (run [AddLigne, AddLigne, AddLigne] init))"
    unfolding l by simp
  have none: "list_all (\<lambda>l. lid l \<noteq> 9) (lignes (run [AddLigne, AddLigne, AddLigne] init))"
    unfolding l by simp
  have some: "\<not> list_all (\<lambda>l. lid l \<noteq> 2) (lignes (run [AddLigne, AddLigne, AddLigne] init))"
    unfolding l by simp
  from removeLigne_frame [OF refl len, of 9] none
  have a: "removeLigne 9 (run [AddLigne, AddLigne, AddLigne] init) = run [AddLigne, AddLigne, AddLigne] init"
    by blast
  from removeLigne_frame [OF refl len, of 2] some
  obtain ys l' zs where split: "lignes (run [AddLigne, AddLigne, AddLigne] init) = ys @ l' # zs"
      "lid l' = 2"
      "lignes (removeLigne 2 (run [AddLigne, AddLigne, AddLigne] init)) = ys @ zs"
      "list_all (\<lambda>l. lid l \<noteq> 2) (ys @ zs)"
    by blast
  from split(1) have "length ys + length zs = 2"
    unfolding l by (simp add: list_eq_iff_nth_eq)
  with split(3) have n: "length (lignes (removeLigne 2 (run [AddLigne, AddLigne, AddLigne] init))) = 2"
    by simp
  from len have "lignes (removeLigne 2 (run [AddLigne, AddLigne, AddLigne] init))
      = filter (\<lambda>l. lid l \<noteq> 2) (lignes (run [AddLigne, AddLigne, AddLigne] init))"
    by (simp add: removeLigne_def)
  then have "lignes (removeLigne 2 (run [AddLigne, AddLigne, AddLigne] init))
       = [\<lparr>lid = 1, ref = [], qte = []\<rparr>, \<lparr>lid = 3, ref = [], qte = []\<rparr>]"
    unfolding l by simp
  with len a n show ?thesis
    by blast
qed

section \<open>Numbers: lemmas\<close>

lemma round_even_of_int [simp]: "round_even (of_int m) = m"
  by (simp add: round_even_def)

lemma powi_nonneg: "0 \<le> k \<Longrightarrow> (2::rat) powi k = of_int (2 ^ nat k)"
  by (simp add: power_int_def)

lemma powi_neg: "0 \<le> k \<Longrightarrow> (2::rat) powi (- k) = 1 / of_int (2 ^ nat k)"
  by (simp add: power_int_minus powi_nonneg inverse_eq_divide)

lemma bitlen_pos:
  assumes "0 < n"
  shows "1 \<le> bitlen n" and "2 ^ nat (bitlen n - 1) \<le> n" and "n < 2 ^ nat (bitlen n)"
proof -
  from assms show b: "2 ^ nat (bitlen n - 1) \<le> n" "n < 2 ^ nat (bitlen n)"
    using bitlen_bounds [of n] by simp_all
  show "1 \<le> bitlen n"
  proof (rule ccontr)
    assume "\<not> 1 \<le> bitlen n"
    then have "nat (bitlen n) = 0"
      by simp
    with b(2) assms show False
      by simp
  qed
qed

lemma ilog2_bounds:
  assumes "0 < x"
  shows "2 powi ilog2 x \<le> x" and "x < 2 powi (ilog2 x + 1)"
proof -
  have "2 powi ilog2 x \<le> x \<and> x < 2 powi (ilog2 x + 1)"
  proof (cases "1 \<le> x")
    case True
    define n where "n = \<lfloor>x\<rfloor>"
    define b where "b = bitlen n"
    from True have n: "0 < n"
      by (simp add: n_def)
    then have b: "1 \<le> b" "2 ^ nat (b - 1) \<le> n" "n < 2 ^ nat b"
      unfolding b_def by (rule bitlen_pos)+
    from True have il: "ilog2 x = b - 1"
      by (simp add: ilog2_def b_def n_def)
    from b(1) have lo: "(2::rat) powi (b - 1) = of_int (2 ^ nat (b - 1))"
      by (simp add: powi_nonneg)
    from b(1) have hi: "(2::rat) powi b = of_int (2 ^ nat b)"
      by (simp add: powi_nonneg)
    from b(2) have "rat_of_int (2 ^ nat (b - 1)) \<le> of_int n"
      by (simp only: of_int_le_iff)
    also have "\<dots> \<le> x"
      by (simp add: n_def)
    finally have 1: "2 powi (b - 1) \<le> x"
      by (simp only: lo)
    have "x < of_int (n + 1)"
      unfolding n_def by linarith
    also from b(3) have "n + 1 \<le> 2 ^ nat b"
      by simp
    then have "rat_of_int (n + 1) \<le> of_int (2 ^ nat b)"
      by (simp only: of_int_le_iff)
    finally have 2: "x < 2 powi b"
      by (simp only: hi)
    from 1 2 show ?thesis
      by (simp add: il)
  next
    case False
    define c where "c = \<lceil>1 / x\<rceil>"
    define n where "n = c - 1"
    define b where "b = bitlen n"
    from False assms have y: "1 < 1 / x"
      by (simp add: field_simps)
    then have "1 < c"
      by (simp add: c_def)
    then have n: "0 < n"
      by (simp add: n_def)
    then have b: "1 \<le> b" "2 ^ nat (b - 1) \<le> n" "n < 2 ^ nat b"
      unfolding b_def by (rule bitlen_pos)+
    from False have il: "ilog2 x = - b"
      by (simp add: ilog2_def b_def n_def c_def)
    from b(1) have "0 \<le> b"
      by simp
    then have lo: "(2::rat) powi (- b) = 1 / of_int (2 ^ nat b)"
      by (rule powi_neg)
    from b(1) have "0 \<le> b - 1"
      by simp
    then have hi: "(2::rat) powi (- (b - 1)) = 1 / of_int (2 ^ nat (b - 1))"
      by (rule powi_neg)
    have p1: "(0::rat) < of_int (2 ^ nat b)" and p2: "(0::rat) < of_int (2 ^ nat (b - 1))"
      by simp_all
    have "1 / x \<le> of_int c"
      by (simp add: c_def)
    also from b(3) have "c \<le> 2 ^ nat b"
      by (simp add: n_def)
    then have "rat_of_int c \<le> of_int (2 ^ nat b)"
      by (simp only: of_int_le_iff)
    finally have "1 / x \<le> of_int (2 ^ nat b)" .
    with assms p1 have "1 / of_int (2 ^ nat b) \<le> x"
      by (simp add: field_simps)
    then have 1: "2 powi (- b) \<le> x"
      by (simp only: lo)
    from b(2) have "rat_of_int (2 ^ nat (b - 1)) \<le> of_int (c - 1)"
      by (simp only: of_int_le_iff n_def)
    also have "rat_of_int (c - 1) < 1 / x"
      unfolding c_def by linarith
    finally have "of_int (2 ^ nat (b - 1)) < 1 / x" .
    with assms p2 have "x < 1 / of_int (2 ^ nat (b - 1))"
      by (simp add: field_simps)
    then have "x < 2 powi (- (b - 1))"
      by (simp only: hi)
    then have 2: "x < 2 powi (- b + 1)"
      by simp
    from 1 2 show ?thesis
      by (simp add: il)
  qed
  then show "2 powi ilog2 x \<le> x" and "x < 2 powi (ilog2 x + 1)"
    by simp_all
qed

lemma fl_dyadic:
  assumes m: "\<bar>m\<bar> < 2 ^ 53" and j: "- 1074 \<le> j"
    and r: "\<bar>of_int m * 2 powi j\<bar> < (2::rat) ^ 1024"
  shows "fl (of_int m * 2 powi j) = Num (of_int m * 2 powi j)"
proof (cases "m = 0")
  case True
  then show ?thesis
    by (simp add: fl_def)
next
  case False
  define x :: rat where "x = of_int m * 2 powi j"
  define e where "e = max (ilog2 \<bar>x\<bar>) (- 1022)"
  define d where "d = nat (j - (e - 52))"
  have pj: "(0::rat) < 2 powi j"
    by (simp add: zero_less_power_int)
  with False have x0: "x \<noteq> 0"
    by (simp add: x_def)
  then have "0 < \<bar>x\<bar>"
    by simp
  then have lo: "2 powi ilog2 \<bar>x\<bar> \<le> \<bar>x\<bar>"
    by (rule ilog2_bounds)
  have ax: "\<bar>x\<bar> = of_int \<bar>m\<bar> * 2 powi j"
    using pj by (simp add: x_def abs_mult)
  from m have "rat_of_int \<bar>m\<bar> < of_int (2 ^ 53)"
    by (simp only: of_int_less_iff)
  with pj have "\<bar>x\<bar> < of_int (2 ^ 53) * 2 powi j"
    unfolding ax by (simp only: mult_strict_right_mono)
  also have "rat_of_int (2 ^ 53) * 2 powi j = 2 powi (53 + j)"
    by (simp add: power_int_add)
  finally have hi: "\<bar>x\<bar> < 2 powi (53 + j)" .
  have "ilog2 \<bar>x\<bar> < 53 + j"
  proof (rule ccontr)
    assume "\<not> ilog2 \<bar>x\<bar> < 53 + j"
    then have "(2::rat) powi (53 + j) \<le> 2 powi ilog2 \<bar>x\<bar>"
      by (intro power_int_increasing) simp_all
    with lo hi show False
      by linarith
  qed
  with j have "e - 52 \<le> j"
    by (simp add: e_def)
  then have dj: "j = int d + (e - 52)"
    by (simp add: d_def)
  have "(2::rat) powi j = 2 powi int d * 2 powi (e - 52)"
    by (subst dj) (rule power_int_add, simp)
  then have split: "(2::rat) powi j = 2 ^ d * 2 powi (e - 52)"
    by (simp only: power_int_of_nat)
  have pq: "(2::rat) powi (e - 52) \<noteq> 0"
    by simp
  have dv: "x / 2 powi (e - 52) = of_int (m * 2 ^ d)"
    unfolding x_def split using pq by simp
  have bk: "rat_of_int (m * 2 ^ d) * 2 powi (e - 52) = x"
    unfolding x_def split by simp
  from r have rng: "\<not> 2 ^ 1024 \<le> x" "\<not> x \<le> - (2 ^ 1024)"
    unfolding x_def [symmetric] by (simp_all add: abs_less_iff)
  from x0 have "fl x
      = (let y = of_int (round_even (x / 2 powi (e - 52))) * 2 powi (e - 52)
         in if 2 ^ 1024 \<le> y then PosInf else if y \<le> - (2 ^ 1024) then NegInf else Num y)"
    by (simp only: fl_def e_def Let_def if_False)
  also have "\<dots> = Num x"
    using rng by (simp only: dv round_even_of_int bk Let_def if_False)
  finally show ?thesis
    by (simp only: x_def)
qed

lemma fl_half:
  assumes "\<bar>k\<bar> < 2 ^ 53"
  shows "fl (of_int k / 2) = Num (of_int k / 2)"
proof -
  have "\<bar>rat_of_int k * 2 powi (- 1)\<bar> = of_int \<bar>k\<bar> / 2"
    by (simp add: abs_mult)
  also from assms have "rat_of_int \<bar>k\<bar> < of_int (2 ^ 53)"
    by (simp only: of_int_less_iff)
  then have "rat_of_int \<bar>k\<bar> / 2 < 2 ^ 1024"
    by simp
  finally have "\<bar>rat_of_int k * 2 powi (- 1)\<bar> < 2 ^ 1024" .
  with assms have "fl (of_int k * 2 powi (- 1)) = Num (of_int k * 2 powi (- 1))"
    by (intro fl_dyadic) simp_all
  then show ?thesis
    by simp
qed

lemma floor_rat_numeral:
  "\<lfloor>(numeral a :: rat) / numeral b\<rfloor> = numeral a div numeral b"
  using floor_divide_of_int_eq [of "numeral a" "numeral b", where ?'a = rat] by simp

lemma floor_rat_neg_numeral:
  "\<lfloor>- ((numeral a :: rat) / numeral b)\<rfloor> = - numeral a div numeral b"
  using floor_divide_of_int_eq [of "- numeral a" "numeral b", where ?'a = rat] by simp

lemma ceiling_rat_numeral:
  "\<lceil>(numeral a :: rat) / numeral b\<rceil> = - (- numeral a div numeral b)"
  by (simp only: ceiling_def floor_rat_neg_numeral)

lemmas fl_eval = fl_def ilog2_def round_even_def Let_def compute_bitlen
  floor_rat_numeral floor_rat_neg_numeral ceiling_rat_numeral

lemma fl_zero [simp]: "fl 0 = Num 0"
  by (simp add: fl_def)

lemma fl_int:
  assumes "\<bar>k\<bar> < 2 ^ 53"
  shows "fl (of_int k) = Num (of_int k)"
proof -
  from assms have "rat_of_int \<bar>k\<bar> < of_int (2 ^ 53)"
    by (simp only: of_int_less_iff)
  then have "\<bar>rat_of_int k * 2 powi 0\<bar> < 2 ^ 1024"
    by simp
  with assms have "fl (of_int k * 2 powi 0) = Num (of_int k * 2 powi 0)"
    by (intro fl_dyadic) simp_all
  then show ?thesis
    by simp
qed

lemma js_mul_int:
  "\<bar>a * b\<bar> < 2 ^ 53 \<Longrightarrow> js_mul (Num (of_int a)) (Num (of_int b)) = Num (of_int (a * b))"
  using fl_int [of "a * b"] by simp

lemma js_add_int:
  "\<bar>a + b\<bar> < 2 ^ 53 \<Longrightarrow> js_add (Num (of_int a)) (Num (of_int b)) = Num (of_int (a + b))"
  using fl_int [of "a + b"] by simp

lemma round_even_le_minus_one:
  assumes "z \<le> - 1"
  shows "round_even z \<le> - 1"
proof -
  from assms have f: "\<lfloor>z\<rfloor> \<le> - 1"
    by (simp add: floor_le_iff)
  have "\<lfloor>z\<rfloor> + 1 \<le> - 1" if "1 / 2 \<le> z - of_int \<lfloor>z\<rfloor>"
  proof -
    from that assms have "rat_of_int \<lfloor>z\<rfloor> < - 1"
      by linarith
    then have "\<lfloor>z\<rfloor> < - 1"
      by (simp add: of_int_less_iff [where ?'a = rat, symmetric] del: of_int_less_iff)
    then show ?thesis
      by simp
  qed
  with f show ?thesis
    by (auto simp: round_even_def Let_def)
qed

lemma quantum_bounds:
  fixes x :: rat
  assumes "x \<noteq> 0" and "2 powi (- 1074) \<le> \<bar>x\<bar>"
  defines "q \<equiv> 2 powi (max (ilog2 \<bar>x\<bar>) (- 1022) - 52)"
  shows "0 < q" and "2 powi (- 1074) \<le> q" and "q \<le> \<bar>x\<bar>"
proof -
  show "0 < q"
    by (simp add: q_def zero_less_power_int)
  show "2 powi (- 1074) \<le> q"
    unfolding q_def by (intro power_int_increasing) simp_all
  from assms(1) have "0 < \<bar>x\<bar>"
    by simp
  then have lo: "2 powi ilog2 \<bar>x\<bar> \<le> \<bar>x\<bar>"
    by (rule ilog2_bounds)
  show "q \<le> \<bar>x\<bar>"
  proof (cases "- 1022 \<le> ilog2 \<bar>x\<bar>")
    case True
    then have "q = 2 powi (ilog2 \<bar>x\<bar> - 52)"
      by (simp add: q_def max_def)
    also have "\<dots> \<le> 2 powi ilog2 \<bar>x\<bar>"
      by (intro power_int_increasing) simp_all
    finally show ?thesis
      using lo by simp
  next
    case False
    then have "q = 2 powi (- 1074)"
      by (simp add: q_def max_def)
    with assms(2) show ?thesis
      by simp
  qed
qed

lemma fl_negatif:
  assumes "x \<le> - (2 powi (- 1074))"
  shows "negatif (fl x)"
proof -
  define q :: rat where "q = 2 powi (max (ilog2 \<bar>x\<bar>) (- 1022) - 52)"
  define y where "y = of_int (round_even (x / q)) * q"
  have p: "(0::rat) < 2 powi (- 1074)"
    by (simp add: zero_less_power_int)
  with assms have x: "x < 0"
    by linarith
  with assms have ax: "2 powi (- 1074) \<le> \<bar>x\<bar>"
    by simp
  from x have x0: "x \<noteq> 0"
    by simp
  from quantum_bounds [OF x0 ax]
  have q: "0 < q" "2 powi (- 1074) \<le> q" "q \<le> \<bar>x\<bar>"
    by (simp_all add: q_def)
  from q(1,3) x have "x / q \<le> - 1"
    by (simp add: field_simps)
  then have "round_even (x / q) \<le> - 1"
    by (rule round_even_le_minus_one)
  then have "rat_of_int (round_even (x / q)) \<le> - 1"
    by (simp add: of_int_le_iff [where ?'a = rat, symmetric] del: of_int_le_iff)
  with q(1) have "y \<le> - 1 * q"
    unfolding y_def by (intro mult_right_mono) simp_all
  with q(2) have y: "y \<le> - (2 powi (- 1074))"
    by simp
  with p have "\<not> 2 ^ 1024 \<le> y"
    by simp
  with x0 have "fl x = (if y \<le> - (2 ^ 1024) then NegInf else Num y)"
    by (simp add: fl_def Let_def q_def y_def)
  with y show ?thesis
    by (simp add: negatif_def)
qed

lemma nombre_negatif:
  assumes "nombre v" and "js_lt v (Num 0)"
  shows "negatif v"
proof (cases v)
  case (Num x)
  define q :: rat where "q = 2 powi (max (ilog2 \<bar>x\<bar>) (- 1022) - 52)"
  define y where "y = of_int (round_even (x / q)) * q"
  from assms(2) Num have x: "x < 0"
    by simp
  then have x0: "x \<noteq> 0"
    by simp
  have q: "0 < q" "2 powi (- 1074) \<le> q"
    unfolding q_def by (simp add: zero_less_power_int, intro power_int_increasing) simp_all
  from x0 have "fl x = (if 2 ^ 1024 \<le> y then PosInf else if y \<le> - (2 ^ 1024) then NegInf else Num y)"
    by (simp only: fl_def Let_def q_def y_def if_False)
  moreover from assms(1) Num have "fl x = Num x"
    by (simp add: nombre_def)
  ultimately have "y = x"
    by (simp split: if_splits)
  with x have "rat_of_int (round_even (x / q)) * q < 0"
    by (simp only: y_def)
  with q(1) have "rat_of_int (round_even (x / q)) < 0"
    by (auto simp: mult_less_0_iff)
  then have "round_even (x / q) \<le> - 1"
    by simp
  then have "rat_of_int (round_even (x / q)) \<le> - 1"
    by (simp add: of_int_le_iff [where ?'a = rat, symmetric] del: of_int_le_iff)
  with q(1) have "y \<le> - 1 * q"
    unfolding y_def by (intro mult_right_mono) simp_all
  with q(2) \<open>y = x\<close> have "x \<le> - (2 powi (- 1074))"
    by simp
  with Num show ?thesis
    by (simp add: negatif_def)
next
  case NaN
  with assms(2) show ?thesis by simp
next
  case PosInf
  with assms(2) show ?thesis by simp
next
  case NegInf
  then show ?thesis by (simp add: negatif_def)
qed

lemma negatif_lt: "negatif v \<Longrightarrow> js_lt v (Num 0)"
proof (cases v)
  case (Num x)
  assume "negatif v"
  with Num have "x \<le> - (2 powi (- 1074))"
    by (simp add: negatif_def)
  moreover have "(0::rat) < 2 powi (- 1074)"
    by (simp add: zero_less_power_int)
  ultimately have "x < 0"
    by linarith
  with Num show ?thesis
    by simp
qed (simp_all add: negatif_def)

lemma js_mul_negatif:
  assumes "negatif v" and "1 \<le> c"
  shows "negatif (js_mul v (Num c))"
proof (cases v)
  case (Num x)
  with assms(1) have x: "x \<le> - (2 powi (- 1074))"
    by (simp add: negatif_def)
  have p: "(0::rat) < 2 powi (- 1074)"
    by (simp add: zero_less_power_int)
  with x have "x \<le> 0"
    by linarith
  with assms(2) have "x * c \<le> x * 1"
    by (intro mult_left_mono_neg) simp_all
  then have "x * c \<le> x"
    by (simp only: mult_1_right)
  from this x have "x * c \<le> - (2 powi (- 1074))"
    by (rule order_trans)
  then have "negatif (fl (x * c))"
    by (rule fl_negatif)
  with Num show ?thesis
    by simp
next
  case NegInf
  with assms(2) show ?thesis
    by (simp add: negatif_def)
qed (use assms(1) in \<open>simp_all add: negatif_def\<close>)

lemma js_add_negatif:
  assumes "negatif a" and "negatif b \<or> b = Num 0"
  shows "negatif (js_add a b)"
proof -
  have p: "(0::rat) < 2 powi (- 1074)"
    by (simp add: zero_less_power_int)
  have "negatif (js_add (Num x) (Num y))"
    if "x \<le> - (2 powi (- 1074))" and "y \<le> 0" for x y
  proof -
    from that have "x + y \<le> - (2 powi (- 1074))"
      by linarith
    then have "negatif (fl (x + y))"
      by (rule fl_negatif)
    then show ?thesis
      by simp
  qed
  note num = this
  show ?thesis
  proof (cases a)
    case (Num x)
    with assms(1) have x: "x \<le> - (2 powi (- 1074))"
      by (simp add: negatif_def)
    show ?thesis
    proof (cases b)
      case (Num y)
      with assms(2) p have "y \<le> 0"
        by (auto simp: negatif_def)
      with x have "negatif (js_add (Num x) (Num y))"
        by (rule num)
      with \<open>a = Num x\<close> Num show ?thesis
        by simp
    next
      case NegInf
      with \<open>a = Num x\<close> show ?thesis
        by (simp add: negatif_def)
    qed (use assms(2) in \<open>simp_all add: negatif_def\<close>)
  next
    case NegInf
    with assms(2) show ?thesis
      by (cases b) (simp_all add: negatif_def)
  qed (use assms(1) in \<open>simp_all add: negatif_def\<close>)
qed

section \<open>Package estimator: lemmas\<close>

lemma negatif_le_20: "negatif v \<Longrightarrow> js_le v (Num 20)"
proof (cases v)
  case (Num x)
  assume "negatif v"
  with Num have "x \<le> - (2 powi (- 1074))"
    by (simp add: negatif_def)
  moreover have "(0::rat) < 2 powi (- 1074)"
    by (simp add: zero_less_power_int)
  ultimately have "x \<le> 20"
    by linarith
  with Num show ?thesis
    by simp
qed (simp_all add: negatif_def)

lemma calcForfait_exact:
  assumes n: "0 \<le> n" and h: "0 \<le> h" and s: "0 \<le> s"
    and b: "spec_monthly n h s c < 2 ^ 53"
  shows "calcForfait (Num (of_int n)) (Num (of_int h)) (Num (of_int s)) c =
     \<lparr>prixBul = Num (if n \<le> 20 then 20 else 15),
      mBul = Num (of_int (n * (if n \<le> 20 then 20 else 15))),
      mCoffre = Num (of_int (if c then n * 2 else 0)),
      mIn = Num (of_int (h * 15)),
      mOut = Num (of_int (s * 50)),
      html = [(Bulletins, Num (of_int (n * (if n \<le> 20 then 20 else 15))))]
        @ (if c then [(Coffre_fort, Num (of_int (n * 2)))] else [])
        @ (if 0 < h then [(Entrees, Num (of_int (h * 15)))] else [])
        @ (if 0 < s then [(Sorties, Num (of_int (s * 50)))] else []),
      forf_mens = Num (of_int (spec_monthly n h s c)),
      forf_an = js_mul (Num (of_int (spec_monthly n h s c))) (Num 12)\<rparr>"
proof -
  define p :: int where "p = (if n \<le> 20 then 20 else 15)"
  define vb where "vb = n * p"
  define vc where "vc = (if c then n * 2 else 0)"
  define vi where "vi = h * 15"
  define vo where "vo = s * 50"
  have t: "spec_monthly n h s c = vb + vc + vi + vo"
    by (simp add: spec_monthly_def vb_def vc_def vi_def vo_def p_def)
  from n have "0 \<le> p"
    by (simp add: p_def)
  with n have vb: "0 \<le> vb"
    by (simp add: vb_def)
  from n have vc: "0 \<le> vc"
    by (simp add: vc_def)
  from h have vi: "0 \<le> vi"
    by (simp add: vi_def)
  from s have vo: "0 \<le> vo"
    by (simp add: vo_def)
  from b have tot: "vb + vc + vi + vo < 2 ^ 53"
    by (simp only: t)
  have pr: "(if js_le (Num (of_int n)) (Num 20) then Num 20 else Num 15) = Num (of_int p)"
    by (simp add: p_def)
  from vb vc vi vo tot have "\<bar>n * p\<bar> < 2 ^ 53"
    unfolding vb_def [symmetric] by linarith
  then have 1: "js_mul (Num (of_int n)) (Num (of_int p)) = Num (of_int vb)"
    unfolding vb_def by (rule js_mul_int)
  from vb vc vi vo tot have "\<bar>n * 2\<bar> < 2 ^ 53" if c
    using that unfolding vc_def by simp
  then have "js_mul (Num (of_int n)) (Num (of_int 2)) = Num (of_int (n * 2))" if c
    using that by (intro js_mul_int)
  then have 2: "(if c then js_mul (Num (of_int n)) (Num 2) else Num 0) = Num (of_int vc)"
    by (simp add: vc_def)
  from vb vc vi vo tot have "\<bar>h * 15\<bar> < 2 ^ 53"
    unfolding vi_def [symmetric] by linarith
  then have "js_mul (Num (of_int h)) (Num (of_int 15)) = Num (of_int (h * 15))"
    by (rule js_mul_int)
  then have 3: "js_mul (Num (of_int h)) (Num 15) = Num (of_int vi)"
    by (simp add: vi_def)
  from vb vc vi vo tot have "\<bar>s * 50\<bar> < 2 ^ 53"
    unfolding vo_def [symmetric] by linarith
  then have "js_mul (Num (of_int s)) (Num (of_int 50)) = Num (of_int (s * 50))"
    by (rule js_mul_int)
  then have 4: "js_mul (Num (of_int s)) (Num 50) = Num (of_int vo)"
    by (simp add: vo_def)
  from vb vc vi vo tot have "\<bar>vb + vc\<bar> < 2 ^ 53"
    by linarith
  then have 5: "js_add (Num (of_int vb)) (Num (of_int vc)) = Num (of_int (vb + vc))"
    by (rule js_add_int)
  from vb vc vi vo tot have "\<bar>vb + vc + vi\<bar> < 2 ^ 53"
    by linarith
  then have 6: "js_add (Num (of_int (vb + vc))) (Num (of_int vi)) = Num (of_int (vb + vc + vi))"
    by (rule js_add_int)
  from vb vc vi vo tot have "\<bar>vb + vc + vi + vo\<bar> < 2 ^ 53"
    by linarith
  then have 7: "js_add (Num (of_int (vb + vc + vi))) (Num (of_int vo))
      = Num (of_int (vb + vc + vi + vo))"
    by (rule js_add_int)
  have lh: "js_lt (Num 0) (Num (of_int h)) \<longleftrightarrow> 0 < h"
    and ls: "js_lt (Num 0) (Num (of_int s)) \<longleftrightarrow> 0 < s"
    by simp_all
  have "calcForfait (Num (of_int n)) (Num (of_int h)) (Num (of_int s)) c =
     \<lparr>prixBul = Num (of_int p), mBul = Num (of_int vb), mCoffre = Num (of_int vc),
      mIn = Num (of_int vi), mOut = Num (of_int vo),
      html = [(Bulletins, Num (of_int vb))]
        @ (if c then [(Coffre_fort, Num (of_int vc))] else [])
        @ (if 0 < h then [(Entrees, Num (of_int vi))] else [])
        @ (if 0 < s then [(Sorties, Num (of_int vo))] else []),
      forf_mens = Num (of_int (vb + vc + vi + vo)),
      forf_an = js_mul (Num (of_int (vb + vc + vi + vo))) (Num 12)\<rparr>"
    by (simp only: calcForfait_def FORFAIT_CONFIG_def Let_def forfait_config.simps
        pr 1 2 3 4 5 6 7 lh ls)
  then show ?thesis
    by (simp only: t [symmetric]) (simp add: vb_def vc_def vi_def vo_def p_def)
qed

lemma forf_an_exact:
  assumes "0 \<le> t" and "t * 12 < 2 ^ 53"
  shows "js_mul (Num (of_int t)) (Num 12) = Num (of_int (t * 12))"
proof -
  from assms have "\<bar>t * 12\<bar> < 2 ^ 53"
    by simp
  then have "js_mul (Num (of_int t)) (Num (of_int 12)) = Num (of_int (t * 12))"
    by (rule js_mul_int)
  then show ?thesis
    by simp
qed

lemma spec_monthly_nonneg: "0 \<le> n \<Longrightarrow> 0 \<le> h \<Longrightarrow> 0 \<le> s \<Longrightarrow> 0 \<le> spec_monthly n h s c"
  by (simp add: spec_monthly_def)

lemma fl_estimator_examples:
  "fl (- 5) = Num (- 5)"
  "fl (- 100) = Num (- 100)"
  "fl (- 1200) = Num (- 1200)"
  "fl 135107988821114865 = Num 135107988821114864"
  "fl 135107988821114864 = Num 135107988821114864"
proof -
  show "fl (- 5) = Num (- 5)"
    using fl_int [of "- 5"] by simp
  show "fl (- 100) = Num (- 100)"
    using fl_int [of "- 100"] by simp
  show "fl (- 1200) = Num (- 1200)"
    using fl_int [of "- 1200"] by simp
  show "fl 135107988821114865 = Num 135107988821114864"
    by (simp add: fl_eval)
  show "fl 135107988821114864 = Num 135107988821114864"
    by (simp add: fl_eval)
qed

section \<open>Package estimator: the claims\<close>

text \<open>
  C2: for every headcount \<open>n\<close> the per-bulletin price is the tier-A rate
  (\<^verbatim>\<open>bulletinMoins20\<close>, 20) when \<open>n \<le> 20\<close> and the tier-B rate
  (\<^verbatim>\<open>bulletinPlus20\<close>, 15) when \<open>n > 20\<close>; at \<open>n = 20\<close> it is 20 and at
  \<open>n = 21\<close> it is 15. The comparison is the one of Numbers, so this holds for every
  finite \<open>n\<close>, and the two infinities fall on the sides of their signs.
\<close>

theorem prixBul_tiers:
  "prixBul (calcForfait n entrees sorties coffre)
     = (if js_le n (Num 20) then bulletinMoins20 FORFAIT_CONFIG else bulletinPlus20 FORFAIT_CONFIG)
   \<and> prixBul (calcForfait (Num x) entrees sorties coffre) = (if x \<le> 20 then Num 20 else Num 15)
   \<and> prixBul (calcForfait (Num 20) entrees sorties coffre) = Num 20
   \<and> prixBul (calcForfait (Num 21) entrees sorties coffre) = Num 15
   \<and> prixBul (calcForfait NegInf entrees sorties coffre) = Num 20
   \<and> prixBul (calcForfait PosInf entrees sorties coffre) = Num 15"
  by (simp add: calcForfait_def FORFAIT_CONFIG_def Let_def)

text \<open>
  C3 (as stated): for every headcount \<open>n \<ge> 0\<close>, hires \<open>h \<ge> 0\<close>, exits
  \<open>s \<ge> 0\<close> and secure-delivery flag \<open>c\<close>, the monthly total equals
  \<open>n * prixBul + (if c then n * 2 else 0) + h * 15 + s * 50\<close>. The products and the
  sums of the code are operations on doubles, and each rounds: for the headcount
  9007199254740991 (\<open>2 ^ 53 - 1\<close>, which \<^verbatim>\<open>parseInt\<close> returns as it is), no hires,
  no exits and no secure delivery, the formula gives 135107988821114865 and the code
  135107988821114864.
\<close>

theorem forfait_monthly_rounds:
  "(0::int) \<le> 9007199254740991
   \<and> spec_monthly 9007199254740991 0 0 False = 135107988821114865
   \<and> forf_mens (calcForfait (Num 9007199254740991) (Num 0) (Num 0) False)
       = Num 135107988821114864
   \<and> forf_mens (calcForfait (Num 9007199254740991) (Num 0) (Num 0) False)
       \<noteq> Num (of_int (spec_monthly 9007199254740991 0 0 False))"
  by (simp add: spec_monthly_def calcForfait_def FORFAIT_CONFIG_def Let_def
      fl_estimator_examples)

text \<open>
  C3 (amended): for integers \<open>n \<ge> 0\<close>, \<open>h \<ge> 0\<close>, \<open>s \<ge> 0\<close> and a flag
  \<open>c\<close> such that \<open>n * prixBul + (if c then n * 2 else 0) + h * 15 + s * 50\<close> is
  below \<open>2 ^ 53\<close>, no product and no sum of the monthly total rounds: the four
  components are the exact products and the monthly total is exactly that sum (of all
  four components, whether or not their lines are written to the details block). The
  annual total is the product of the monthly total and 12, which is exact when it is
  below \<open>2 ^ 53\<close> as well. For headcount 25, hires 2, exits 1 and secure delivery
  on: bulletins 375, secure delivery 50, hires 30, exits 50, monthly 505, annual 6060.
\<close>

theorem forfait_totals:
  assumes "0 \<le> n" and "0 \<le> h" and "0 \<le> s"
    and "spec_monthly n h s c < 2 ^ 53"
  shows "forf_mens (calcForfait (Num (of_int n)) (Num (of_int h)) (Num (of_int s)) c)
       = Num (of_int (n * (if n \<le> 20 then 20 else 15) + (if c then n * 2 else 0)
                      + h * 15 + s * 50))
     \<and> forf_mens (calcForfait (Num (of_int n)) (Num (of_int h)) (Num (of_int s)) c)
       = Num (of_int (spec_monthly n h s c))
     \<and> prixBul (calcForfait (Num (of_int n)) (Num (of_int h)) (Num (of_int s)) c)
       = Num (if n \<le> 20 then 20 else 15)
     \<and> mBul (calcForfait (Num (of_int n)) (Num (of_int h)) (Num (of_int s)) c)
       = Num (of_int (n * (if n \<le> 20 then 20 else 15)))
     \<and> mCoffre (calcForfait (Num (of_int n)) (Num (of_int h)) (Num (of_int s)) c)
       = Num (of_int (if c then n * 2 else 0))
     \<and> mIn (calcForfait (Num (of_int n)) (Num (of_int h)) (Num (of_int s)) c)
       = Num (of_int (h * 15))
     \<and> mOut (calcForfait (Num (of_int n)) (Num (of_int h)) (Num (of_int s)) c)
       = Num (of_int (s * 50))
     \<and> map fst (html (calcForfait (Num (of_int n)) (Num (of_int h)) (Num (of_int s)) c))
       = [Bulletins] @ (if c then [Coffre_fort] else []) @ (if 0 < h then [Entrees] else [])
         @ (if 0 < s then [Sorties] else [])
     \<and> forf_an (calcForfait (Num (of_int n)) (Num (of_int h)) (Num (of_int s)) c)
       = js_mul (forf_mens (calcForfait (Num (of_int n)) (Num (of_int h)) (Num (of_int s)) c))
           (Num 12)
     \<and> (spec_monthly n h s c * 12 < 2 ^ 53 \<longrightarrow>
          forf_an (calcForfait (Num (of_int n)) (Num (of_int h)) (Num (of_int s)) c)
            = Num (of_int (spec_monthly n h s c * 12)))
     \<and> calcForfait (Num 25) (Num 2) (Num 1) True
       = \<lparr>prixBul = Num 15, mBul = Num 375, mCoffre = Num 50, mIn = Num 30, mOut = Num 50,
          html = [(Bulletins, Num 375), (Coffre_fort, Num 50), (Entrees, Num 30),
                  (Sorties, Num 50)],
          forf_mens = Num 505, forf_an = Num 6060\<rparr>"
proof -
  have "js_mul (Num 505) (Num 12) = Num 6060"
    using forf_an_exact [of 505] by simp
  then have ex: "calcForfait (Num 25) (Num 2) (Num 1) True
       = \<lparr>prixBul = Num 15, mBul = Num 375, mCoffre = Num 50, mIn = Num 30, mOut = Num 50,
          html = [(Bulletins, Num 375), (Coffre_fort, Num 50), (Entrees, Num 30),
                  (Sorties, Num 50)],
          forf_mens = Num 505, forf_an = Num 6060\<rparr>"
    using calcForfait_exact [of 25 2 1 True] by (simp add: spec_monthly_def)
  have sp: "spec_monthly n h s c
      = n * (if n \<le> 20 then 20 else 15) + (if c then n * 2 else 0) + h * 15 + s * 50"
    by (simp add: spec_monthly_def)
  from assms(1-3) have "0 \<le> spec_monthly n h s c"
    by (rule spec_monthly_nonneg)
  then have an: "js_mul (Num (of_int (spec_monthly n h s c))) (Num 12)
      = Num (of_int (spec_monthly n h s c * 12))"
    if "spec_monthly n h s c * 12 < 2 ^ 53"
    using that by (rule forf_an_exact)
  have r: "calcForfait (Num (of_int n)) (Num (of_int h)) (Num (of_int s)) c =
     \<lparr>prixBul = Num (if n \<le> 20 then 20 else 15),
      mBul = Num (of_int (n * (if n \<le> 20 then 20 else 15))),
      mCoffre = Num (of_int (if c then n * 2 else 0)),
      mIn = Num (of_int (h * 15)),
      mOut = Num (of_int (s * 50)),
      html = [(Bulletins, Num (of_int (n * (if n \<le> 20 then 20 else 15))))]
        @ (if c then [(Coffre_fort, Num (of_int (n * 2)))] else [])
        @ (if 0 < h then [(Entrees, Num (of_int (h * 15)))] else [])
        @ (if 0 < s then [(Sorties, Num (of_int (s * 50)))] else []),
      forf_mens = Num (of_int (spec_monthly n h s c)),
      forf_an = js_mul (Num (of_int (spec_monthly n h s c))) (Num 12)\<rparr>"
    using assms by (rule calcForfait_exact)
  have 1: "forf_mens (calcForfait (Num (of_int n)) (Num (of_int h)) (Num (of_int s)) c)
       = Num (of_int (spec_monthly n h s c))"
    by (simp only: r forfait.simps)
  have 2: "forf_an (calcForfait (Num (of_int n)) (Num (of_int h)) (Num (of_int s)) c)
       = js_mul (Num (of_int (spec_monthly n h s c))) (Num 12)"
    by (simp only: r forfait.simps)
  have 3: "prixBul (calcForfait (Num (of_int n)) (Num (of_int h)) (Num (of_int s)) c)
       = Num (if n \<le> 20 then 20 else 15)"
    and 4: "mBul (calcForfait (Num (of_int n)) (Num (of_int h)) (Num (of_int s)) c)
       = Num (of_int (n * (if n \<le> 20 then 20 else 15)))"
    and 5: "mCoffre (calcForfait (Num (of_int n)) (Num (of_int h)) (Num (of_int s)) c)
       = Num (of_int (if c then n * 2 else 0))"
    and 6: "mIn (calcForfait (Num (of_int n)) (Num (of_int h)) (Num (of_int s)) c)
       = Num (of_int (h * 15))"
    and 7: "mOut (calcForfait (Num (of_int n)) (Num (of_int h)) (Num (of_int s)) c)
       = Num (of_int (s * 50))"
    by (simp_all only: r forfait.simps)
  have 8: "map fst (html (calcForfait (Num (of_int n)) (Num (of_int h)) (Num (of_int s)) c))
       = [Bulletins] @ (if c then [Coffre_fort] else []) @ (if 0 < h then [Entrees] else [])
         @ (if 0 < s then [Sorties] else [])"
    unfolding r by simp
  from 1 have 0: "forf_mens (calcForfait (Num (of_int n)) (Num (of_int h)) (Num (of_int s)) c)
       = Num (of_int (n * (if n \<le> 20 then 20 else 15) + (if c then n * 2 else 0)
                      + h * 15 + s * 50))"
    by (simp only: sp)
  from 2 have 9: "forf_an (calcForfait (Num (of_int n)) (Num (of_int h)) (Num (of_int s)) c)
       = js_mul (forf_mens (calcForfait (Num (of_int n)) (Num (of_int h)) (Num (of_int s)) c))
           (Num 12)"
    by (simp only: 1)
  from 2 an have 10: "spec_monthly n h s c * 12 < 2 ^ 53 \<longrightarrow>
          forf_an (calcForfait (Num (of_int n)) (Num (of_int h)) (Num (of_int s)) c)
            = Num (of_int (spec_monthly n h s c * 12))"
    by simp
  from 0 1 3 4 5 6 7 8 9 10 ex show ?thesis
    by blast
qed

theorem forfait_totals_witness:
  "(0::int) \<le> 3 \<and> (0::int) \<le> 0 \<and> (0::int) \<le> 1
   \<and> spec_monthly 3 0 1 False < 2 ^ 53
   \<and> spec_monthly 3 0 1 False * 12 < 2 ^ 53
   \<and> forf_mens (calcForfait (Num 3) (Num 0) (Num 1) False) = Num 110
   \<and> map fst (html (calcForfait (Num 3) (Num 0) (Num 1) False)) = [Bulletins, Sorties]
   \<and> forf_an (calcForfait (Num 3) (Num 0) (Num 1) False) = Num 1320"
proof -
  have n: "(0::int) \<le> 3" and h: "(0::int) \<le> 0" and s: "(0::int) \<le> 1"
    by simp_all
  have v: "spec_monthly 3 0 1 False = 110"
    by (simp add: spec_monthly_def)
  have b: "spec_monthly 3 0 1 False < 2 ^ 53"
    by (simp add: v)
  have b': "spec_monthly 3 0 1 False * 12 < 2 ^ 53"
    by (simp add: v)
  from forfait_totals [OF n h s b] n h s b b' v fl_int [of 1320] show ?thesis
    by simp
qed

text \<open>
  C10: the estimator takes negative parsed inputs as they are. For every headcount
  \<open>n < 0\<close> (a negative double or \<^verbatim>\<open>-Infinity\<close>) the per-bulletin price is the
  tier-A rate 20 (the test is \<open>n \<le> 20\<close>), the bulletins component, the product of
  \<open>n\<close> and 20 as the code rounds it, is negative (it is exactly \<open>n * 20\<close> for an
  integer \<open>n\<close> with \<open>- (2 ^ 53) < n * 20\<close>), and the monthly and annual totals are
  negative when there are no hires and no exits.
\<close>

theorem forfait_negative_headcount:
  assumes "nombre n" and "js_lt n (Num 0)"
  shows "prixBul (calcForfait n entrees sorties coffre) = bulletinMoins20 FORFAIT_CONFIG
     \<and> prixBul (calcForfait n entrees sorties coffre) = Num 20
     \<and> mBul (calcForfait n entrees sorties coffre) = js_mul n (Num 20)
     \<and> js_lt (mBul (calcForfait n entrees sorties coffre)) (Num 0)
     \<and> (\<forall>k. n = Num (of_int k) \<and> - (2 ^ 53) < k * 20 \<longrightarrow>
          mBul (calcForfait n entrees sorties coffre) = Num (of_int (k * 20)))
     \<and> js_lt (forf_mens (calcForfait n (Num 0) (Num 0) coffre)) (Num 0)
     \<and> js_lt (forf_an (calcForfait n (Num 0) (Num 0) coffre)) (Num 0)"
proof -
  from assms have neg: "negatif n"
    by (rule nombre_negatif)
  then have le: "js_le n (Num 20)"
    by (rule negatif_le_20)
  then have p: "prixBul (calcForfait n entrees sorties coffre) = Num 20"
    by (simp add: calcForfait_def FORFAIT_CONFIG_def Let_def)
  from le have m: "mBul (calcForfait n entrees sorties coffre) = js_mul n (Num 20)"
    by (simp add: calcForfait_def FORFAIT_CONFIG_def Let_def)
  from neg have nb: "negatif (js_mul n (Num 20))"
    by (rule js_mul_negatif) simp
  then have mneg: "js_lt (js_mul n (Num 20)) (Num 0)"
    by (rule negatif_lt)
  have exact: "js_mul n (Num 20) = Num (of_int (k * 20))"
    if "n = Num (of_int k)" and "- (2 ^ 53) < k * 20" for k
  proof -
    from assms(2) that(1) have "k < 0"
      by simp
    with that(2) have "\<bar>k * 20\<bar> < 2 ^ 53"
      by simp
    then have "js_mul (Num (of_int k)) (Num (of_int 20)) = Num (of_int (k * 20))"
      by (rule js_mul_int)
    with that(1) show ?thesis
      by simp
  qed
  have z: "js_mul (Num 0) (Num c) = Num 0" for c
    by simp
  define mc where "mc = (if coffre then js_mul n (Num 2) else Num 0)"
  from neg have "negatif (js_mul n (Num 2))"
    by (rule js_mul_negatif) simp
  then have "negatif mc \<or> mc = Num 0"
    by (simp add: mc_def)
  with nb have "negatif (js_add (js_mul n (Num 20)) mc)"
    by (rule js_add_negatif)
  then have "negatif (js_add (js_add (js_mul n (Num 20)) mc) (Num 0))"
    by (rule js_add_negatif) simp
  then have tn: "negatif (js_add (js_add (js_add (js_mul n (Num 20)) mc) (Num 0)) (Num 0))"
    by (rule js_add_negatif) simp
  then have an: "negatif (js_mul (js_add (js_add (js_add (js_mul n (Num 20)) mc) (Num 0)) (Num 0)) (Num 12))"
    by (rule js_mul_negatif) simp
  from le have t: "forf_mens (calcForfait n (Num 0) (Num 0) coffre)
      = js_add (js_add (js_add (js_mul n (Num 20)) mc) (Num 0)) (Num 0)"
    by (simp add: calcForfait_def FORFAIT_CONFIG_def Let_def z mc_def)
  from le have a: "forf_an (calcForfait n (Num 0) (Num 0) coffre)
      = js_mul (js_add (js_add (js_add (js_mul n (Num 20)) mc) (Num 0)) (Num 0)) (Num 12)"
    by (simp add: calcForfait_def FORFAIT_CONFIG_def Let_def z mc_def)
  from tn have tl: "js_lt (forf_mens (calcForfait n (Num 0) (Num 0) coffre)) (Num 0)"
    unfolding t by (rule negatif_lt)
  from an have al: "js_lt (forf_an (calcForfait n (Num 0) (Num 0) coffre)) (Num 0)"
    unfolding a by (rule negatif_lt)
  from p have c: "prixBul (calcForfait n entrees sorties coffre) = bulletinMoins20 FORFAIT_CONFIG"
    by (simp add: FORFAIT_CONFIG_def)
  from mneg have ml: "js_lt (mBul (calcForfait n entrees sorties coffre)) (Num 0)"
    by (simp only: m)
  from exact have ex: "\<forall>k. n = Num (of_int k) \<and> - (2 ^ 53) < k * 20 \<longrightarrow>
      mBul (calcForfait n entrees sorties coffre) = Num (of_int (k * 20))"
    unfolding m by blast
  from c p m ml ex tl al show ?thesis
    by blast
qed

theorem forfait_negative_headcount_witness:
  "nombre (Num (- 5)) \<and> js_lt (Num (- 5)) (Num 0)
   \<and> prixBul (calcForfait (Num (- 5)) (Num 0) (Num 0) False) = Num 20
   \<and> mBul (calcForfait (Num (- 5)) (Num 0) (Num 0) False) = Num (- 100)
   \<and> js_lt (mBul (calcForfait (Num (- 5)) (Num 0) (Num 0) False)) (Num 0)
   \<and> forf_mens (calcForfait (Num (- 5)) (Num 0) (Num 0) False) = Num (- 100)
   \<and> forf_an (calcForfait (Num (- 5)) (Num 0) (Num 0) False) = Num (- 1200)"
proof -
  have nb: "nombre (Num (- 5))"
    by (simp add: nombre_def fl_estimator_examples)
  have lt: "js_lt (Num (- 5)) (Num 0)"
    by simp
  have t: "forf_mens (calcForfait (Num (- 5)) (Num 0) (Num 0) False) = Num (- 100)"
    and a: "forf_an (calcForfait (Num (- 5)) (Num 0) (Num 0) False) = Num (- 1200)"
    and m: "mBul (calcForfait (Num (- 5)) (Num 0) (Num 0) False) = Num (- 100)"
    by (simp_all add: calcForfait_def FORFAIT_CONFIG_def Let_def fl_estimator_examples)
  from forfait_negative_headcount [OF nb lt, of "Num 0" "Num 0" False] t a m nb lt
  show ?thesis
    by (simp add: fl_estimator_examples FORFAIT_CONFIG_def)
qed

section \<open>Price grid: lemmas\<close>

lemma set_first_seen [simp]: "set (first_seen xs) = set xs"
  by (induction xs) auto

lemma distinct_first_seen [simp]: "distinct (first_seen xs)"
  by (induction xs) (simp_all add: distinct_removeAll)

lemma first_seen_snoc:
  "first_seen (xs @ [x]) = (if x \<in> set xs then first_seen xs else first_seen xs @ [x])"
  by (induction xs) auto

lemma cats_of_snoc: "cats_of (xs @ [e]) = push_entry (cats_of xs) e"
  by (simp add: cats_of_def)

lemma cats_of_eq:
  "cats_of xs
     = map (\<lambda>c. (c, filter (\<lambda>e. cat (snd e) = c) xs)) (first_seen (map (\<lambda>e. cat (snd e)) xs))"
proof (induction xs rule: rev_induct)
  case Nil
  show ?case by (simp add: cats_of_def)
next
  case (snoc e xs)
  let ?c = "cat (snd e)"
  let ?ks = "first_seen (map (\<lambda>e. cat (snd e)) xs)"
  have keys: "fst ` set (cats_of xs) = set (map (\<lambda>e. cat (snd e)) xs)"
    by (simp add: snoc.IH image_image)
  show ?case
  proof (cases "?c \<in> set (map (\<lambda>e. cat (snd e)) xs)")
    case True
    with keys have "map_of (cats_of xs) ?c \<noteq> None"
      by (simp add: map_of_eq_None_iff)
    then have "cats_of (xs @ [e])
        = map (\<lambda>(k, items). if k = ?c then (k, items @ [e]) else (k, items)) (cats_of xs)"
      by (simp add: cats_of_snoc push_entry_def Let_def)
    also have "\<dots> = map (\<lambda>c. (c, filter (\<lambda>e. cat (snd e) = c) (xs @ [e]))) ?ks"
      by (simp add: snoc.IH)
    finally show ?thesis
      using True by (simp add: first_seen_snoc)
  next
    case False
    with keys have "map_of (cats_of xs) ?c = None"
      by (simp add: map_of_eq_None_iff)
    then have "cats_of (xs @ [e])
        = map (\<lambda>(k, items). if k = ?c then (k, items @ [e]) else (k, items))
            (cats_of xs @ [(?c, [])])"
      by (simp add: cats_of_snoc push_entry_def Let_def)
    also have "\<dots> = map (\<lambda>c. (c, filter (\<lambda>e. cat (snd e) = c) (xs @ [e]))) (?ks @ [?c])"
    proof -
      have "\<forall>x \<in> set xs. cat (snd x) \<noteq> ?c"
      proof
        fix x
        assume "x \<in> set xs"
        then have "cat (snd x) \<in> set (map (\<lambda>e. cat (snd e)) xs)"
          by simp
        with False show "cat (snd x) \<noteq> ?c"
          by metis
      qed
      then have "filter (\<lambda>x. cat (snd x) = ?c) xs = []"
        by (simp add: filter_empty_conv)
      then show ?thesis
        by (simp add: snoc.IH)
    qed
    finally show ?thesis
      using False by (simp add: first_seen_snoc)
  qed
qed

lemma mset_groups:
  "distinct ks \<Longrightarrow>
     mset (concat (map (\<lambda>c. filter (\<lambda>e. key e = c) xs) ks))
       = filter_mset (\<lambda>e. key e \<in> set ks) (mset xs)"
proof (induction ks)
  case Nil
  show ?case by simp
next
  case (Cons k ks)
  then have "k \<notin> set ks" and "distinct ks"
    by simp_all
  from \<open>k \<notin> set ks\<close> have "filter_mset (\<lambda>e. key e = k) (mset xs) + filter_mset (\<lambda>e. key e \<in> set ks) (mset xs)
      = filter_mset (\<lambda>e. key e \<in> set (k # ks)) (mset xs)"
    by (induction xs) auto
  with Cons.IH [OF \<open>distinct ks\<close>] show ?case
    by simp
qed

lemma mset_cats_of: "mset (concat (map snd (cats_of xs))) = mset xs"
proof -
  let ?ks = "first_seen (map (\<lambda>e. cat (snd e)) xs)"
  have "mset (concat (map snd (cats_of xs)))
      = mset (concat (map (\<lambda>c. filter (\<lambda>e. cat (snd e) = c) xs) ?ks))"
    by (simp add: cats_of_eq comp_def)
  also have "\<dots> = filter_mset (\<lambda>e. cat (snd e) \<in> set ?ks) (mset xs)"
    by (rule mset_groups) simp
  also have "\<dots> = mset xs"
  proof -
    have "filter (\<lambda>e. cat (snd e) \<in> set ?ks) xs = xs"
      by (simp add: filter_id_conv)
    then have "mset (filter (\<lambda>e. cat (snd e) \<in> set ?ks) xs) = mset xs"
      by (rule arg_cong)
    then show ?thesis
      by (simp only: mset_filter)
  qed
  finally show ?thesis .
qed

lemma group_of_entry:
  assumes "e \<in> set xs"
  shows "\<exists>!g. g \<in> set (cats_of xs) \<and> e \<in> set (snd g)"
proof
  let ?g = "(cat (snd e), filter (\<lambda>x. cat (snd x) = cat (snd e)) xs)"
  from assms show "?g \<in> set (cats_of xs) \<and> e \<in> set (snd ?g)"
    by (auto simp: cats_of_eq)
next
  fix g
  assume "g \<in> set (cats_of xs) \<and> e \<in> set (snd g)"
  then show "g = (cat (snd e), filter (\<lambda>x. cat (snd x) = cat (snd e)) xs)"
    by (auto simp: cats_of_eq)
qed

section \<open>Price grid: the claim\<close>

text \<open>
  C6: grouping the catalog by category, as \<^verbatim>\<open>renderGrille\<close> does, yields the
  categories in the order in which the catalog first names them (Audit, Bulletins,
  Gestion, BTP, Contrats, DUE, Ruptures, Indemnites, Autres), each with the
  catalog's entries of that category in the catalog's order; the groups together
  hold exactly the entries of the catalog, and every entry is in exactly one group,
  the one named by its category. The titles on the page are these categories.
\<close>

theorem cats_of_TARIFS:
  "cats_of TARIFS
     = map (\<lambda>c. (c, filter (\<lambda>e. cat (snd e) = c) TARIFS))
         (first_seen (map (\<lambda>e. cat (snd e)) TARIFS))
   \<and> map fst (cats_of TARIFS)
     = [''Audit'', ''Bulletins'', ''Gestion'', ''BTP'', ''Contrats'', ''DUE'', ''Ruptures'',
        ''Indemnit'' @ e_acute @ ''s'', ''Autres'']
   \<and> map fst renderGrille = map fst (cats_of TARIFS)
   \<and> distinct (map fst (cats_of TARIFS))
   \<and> mset (concat (map snd (cats_of TARIFS))) = mset TARIFS
   \<and> (\<forall>e \<in> set TARIFS. \<exists>!g. g \<in> set (cats_of TARIFS) \<and> e \<in> set (snd g))
   \<and> (\<forall>g \<in> set (cats_of TARIFS). \<forall>e \<in> set (snd g). cat (snd e) = fst g)"
proof -
  have order: "first_seen (map (\<lambda>e. cat (snd e)) TARIFS)
      = [''Audit'', ''Bulletins'', ''Gestion'', ''BTP'', ''Contrats'', ''DUE'', ''Ruptures'',
        ''Indemnit'' @ e_acute @ ''s'', ''Autres'']"
    by (simp add: TARIFS_def)
  have keys: "map fst (cats_of TARIFS) = first_seen (map (\<lambda>e. cat (snd e)) TARIFS)"
    by (simp add: cats_of_eq comp_def)
  have titles: "map fst renderGrille = map fst (cats_of TARIFS)"
    by (simp add: renderGrille_def comp_def case_prod_beta)
  have dist: "distinct (map fst (cats_of TARIFS))"
    unfolding keys by (rule distinct_first_seen)
  have one: "\<forall>e \<in> set TARIFS. \<exists>!g. g \<in> set (cats_of TARIFS) \<and> e \<in> set (snd g)"
    by (simp add: group_of_entry)
  have named: "\<forall>g \<in> set (cats_of TARIFS). \<forall>e \<in> set (snd g). cat (snd e) = fst g"
    by (auto simp: cats_of_eq)
  have groups: "cats_of TARIFS
      = map (\<lambda>c. (c, filter (\<lambda>e. cat (snd e) = c) TARIFS))
          (first_seen (map (\<lambda>e. cat (snd e)) TARIFS))"
    by (rule cats_of_eq)
  have all: "mset (concat (map snd (cats_of TARIFS))) = mset TARIFS"
    by (rule mset_cats_of)
  from keys order have names: "map fst (cats_of TARIFS)
      = [''Audit'', ''Bulletins'', ''Gestion'', ''BTP'', ''Contrats'', ''DUE'', ''Ruptures'',
        ''Indemnit'' @ e_acute @ ''s'', ''Autres'']"
    by (rule trans)
  from groups names titles dist all one named show ?thesis
    by blast
qed

theorem cats_of_TARIFS_witness:
  "(''BTP-003'', \<lparr>libelle = ''Radiation CI-BTP'', tarif = 20, unite = euro @ ''/sal'', cat = ''BTP''\<rparr>)
     \<in> set TARIFS
   \<and> (\<exists>!g. g \<in> set (cats_of TARIFS)
        \<and> (''BTP-003'', \<lparr>libelle = ''Radiation CI-BTP'', tarif = 20, unite = euro @ ''/sal'', cat = ''BTP''\<rparr>)
            \<in> set (snd g))
   \<and> fst (cats_of TARIFS ! 3) = ''BTP''"
proof -
  let ?e = "(''BTP-003'', \<lparr>libelle = ''Radiation CI-BTP'', tarif = 20, unite = euro @ ''/sal'', cat = ''BTP''\<rparr>)"
  have mem: "?e \<in> set TARIFS"
    by (simp add: TARIFS_def)
  from cats_of_TARIFS have one: "\<forall>e \<in> set TARIFS. \<exists>!g. g \<in> set (cats_of TARIFS) \<and> e \<in> set (snd g)"
    by blast
  from cats_of_TARIFS have names: "map fst (cats_of TARIFS)
      = [''Audit'', ''Bulletins'', ''Gestion'', ''BTP'', ''Contrats'', ''DUE'', ''Ruptures'',
        ''Indemnit'' @ e_acute @ ''s'', ''Autres'']"
    by blast
  have "length (map fst (cats_of TARIFS)) = 9"
    unfolding names by simp
  then have "length (cats_of TARIFS) = 9"
    by simp
  then have "fst (cats_of TARIFS ! 3) = map fst (cats_of TARIFS) ! 3"
    by simp
  with names have third: "fst (cats_of TARIFS ! 3) = ''BTP''"
    by simp
  from one mem have "\<exists>!g. g \<in> set (cats_of TARIFS) \<and> ?e \<in> set (snd g)"
    by (rule bspec)
  with mem third show ?thesis
    by blast
qed

section \<open>Quote total: lemmas\<close>

lemma ajoute_montant:
  "ajoute a l = (case montant l of None \<Rightarrow> a | Some m \<Rightarrow> js_add a m)"
  by (simp add: ajoute_def montant_def)

lemma foldl_ajoute_exact:
  "list_all montant_demi ls \<Longrightarrow> \<bar>a\<bar> + (\<Sum>l\<leftarrow>ls. \<bar>demis l\<bar>) < 2 ^ 53 \<Longrightarrow>
     foldl ajoute (Num (of_int a / 2)) ls = Num (of_int (a + (\<Sum>l\<leftarrow>ls. demis l)) / 2)"
proof (induction ls arbitrary: a)
  case Nil
  show ?case by simp
next
  case (Cons l ls)
  have rest: "0 \<le> (\<Sum>l\<leftarrow>ls. \<bar>demis l\<bar>)"
    by (rule sum_list_nonneg) auto
  from Cons.prems have half: "montant_demi l" and all: "list_all montant_demi ls"
    by simp_all
  from Cons.prems have bound: "\<bar>a\<bar> + \<bar>demis l\<bar> + (\<Sum>l\<leftarrow>ls. \<bar>demis l\<bar>) < 2 ^ 53"
    by simp
  have stp: "ajoute (Num (of_int a / 2)) l = Num (of_int (a + demis l) / 2)"
  proof (cases "montant l")
    case None
    then show ?thesis
      by (simp add: ajoute_montant demis_def)
  next
    case (Some m)
    with half obtain x where m: "m = Num x" and x: "2 * x = of_int \<lfloor>2 * x\<rfloor>"
      by (cases m) (simp_all add: montant_demi_def)
    from Some m have v: "demis l = \<lfloor>2 * x\<rfloor>"
      by (simp add: demis_def)
    from bound rest v have "\<bar>a + \<lfloor>2 * x\<rfloor>\<bar> < 2 ^ 53"
      by linarith
    then have exact: "fl (of_int (a + \<lfloor>2 * x\<rfloor>) / 2) = Num (of_int (a + \<lfloor>2 * x\<rfloor>) / 2)"
      by (rule fl_half)
    have eq: "rat_of_int a / 2 + x = of_int (a + \<lfloor>2 * x\<rfloor>) / 2"
      using x by (simp add: field_simps)
    have "js_add (Num (of_int a / 2)) (Num x) = fl (of_int a / 2 + x)"
      by (rule js_add.simps)
    also have "\<dots> = fl (of_int (a + \<lfloor>2 * x\<rfloor>) / 2)"
      by (simp only: eq)
    also note exact
    finally have "js_add (Num (of_int a / 2)) (Num x) = Num (of_int (a + \<lfloor>2 * x\<rfloor>) / 2)" .
    with Some m v show ?thesis
      by (simp add: ajoute_montant)
  qed
  from bound have "\<bar>a + demis l\<bar> + (\<Sum>l\<leftarrow>ls. \<bar>demis l\<bar>) < 2 ^ 53"
    by linarith
  with all have "foldl ajoute (Num (of_int (a + demis l) / 2)) ls
      = Num (of_int (a + demis l + (\<Sum>l\<leftarrow>ls. demis l)) / 2)"
    by (rule Cons.IH)
  with stp show ?case
    by (simp add: add.assoc)
qed

lemma calcTotal_exact:
  assumes "list_all montant_demi ls" and "(\<Sum>l\<leftarrow>ls. \<bar>demis l\<bar>) < 2 ^ 53"
  shows "calcTotal ls = Num (of_int (\<Sum>l\<leftarrow>ls. demis l) / 2)"
proof -
  from assms(2) have "\<bar>0::int\<bar> + (\<Sum>l\<leftarrow>ls. \<bar>demis l\<bar>) < 2 ^ 53"
    by simp
  with assms(1) have "foldl ajoute (Num (of_int 0 / 2)) ls
      = Num (of_int (0 + (\<Sum>l\<leftarrow>ls. demis l)) / 2)"
    by (rule foldl_ajoute_exact)
  then show ?thesis
    by (simp add: calcTotal_def)
qed

lemma sum_list_mset_cong:
  fixes f :: "'a \<Rightarrow> int"
  assumes "mset xs = mset ys"
  shows "(\<Sum>x\<leftarrow>xs. f x) = (\<Sum>x\<leftarrow>ys. f x)"
proof -
  have "(\<Sum>x\<leftarrow>xs. f x) = sum_mset (image_mset f (mset xs))"
    by (metis mset_map sum_mset_sum_list)
  also have "\<dots> = sum_mset (image_mset f (mset ys))"
    by (simp only: assms)
  also have "\<dots> = (\<Sum>x\<leftarrow>ys. f x)"
    by (metis mset_map sum_mset_sum_list)
  finally show ?thesis .
qed

lemmas parseFloat_eval = parseFloat_def is_space_def is_digit_def digits_val_def
  split_sign_def exponent_part_def

lemma TARIFS_get_examples:
  "truthy (TARIFS_get ''BUL-001'')" "tarif_of (TARIFS_get ''BUL-001'') = Num 20"
  "truthy (TARIFS_get ''CDI-001'')" "tarif_of (TARIFS_get ''CDI-001'') = Num 150"
  "truthy (TARIFS_get ''ENV-001'')" "tarif_of (TARIFS_get ''ENV-001'') = Num 2"
  "truthy (TARIFS_get ''ENT-001'')" "tarif_of (TARIFS_get ''ENT-001'') = Num 15"
  "truthy (TARIFS_get ''toString'')" "tarif_of (TARIFS_get ''toString'') = NaN"
  by (simp_all add: TARIFS_get_def TARIFS_def Object_prototype_def)

lemma parseFloat_examples:
  "parseFloat ''abc'' = NaN"
  "parseFloat ''1'' = Num 1"
  "parseFloat ''2'' = Num 2"
  "parseFloat ''3'' = Num 3"
  "parseFloat ''0.5'' = Num (1 / 2)"
  "parseFloat ''1.5'' = Num (3 / 2)"
  "parseFloat ''0.1'' = Num (3602879701896397 / 36028797018963968)"
  "parseFloat ''0.2'' = Num (3602879701896397 / 18014398509481984)"
  "parseFloat ''0.3'' = Num (5404319552844595 / 18014398509481984)"
  by (simp_all add: parseFloat_eval fl_eval)

lemma fl_examples:
  "fl 60 = Num 60"
  "fl 300 = Num 300"
  "fl 30 = Num 30"
  "fl (15 / 2) = Num (15 / 2)"
  "fl (3602879701896397 / 18014398509481984) = Num (3602879701896397 / 18014398509481984)"
  "fl (3602879701896397 / 9007199254740992) = Num (3602879701896397 / 9007199254740992)"
  "fl (5404319552844595 / 9007199254740992) = Num (5404319552844595 / 9007199254740992)"
  "fl (10808639105689191 / 18014398509481984) = Num (1351079888211149 / 2251799813685248)"
  "fl (10808639105689191 / 9007199254740992) = Num (1351079888211149 / 1125899906842624)"
  "fl 1 = Num 1"
  "fl (21617278211378381 / 18014398509481984) = Num (5404319552844595 / 4503599627370496)"
  by (simp_all add: fl_eval)

lemma montant_example:
  "montant \<lparr>lid = 1, ref = ''BUL-001'', qte = ''1.5''\<rparr> = Some (Num 30)"
  "montant \<lparr>lid = 2, ref = ''ENT-001'', qte = ''0.5''\<rparr> = Some (Num (15 / 2))"
  "montant \<lparr>lid = 3, ref = ''CDI-001'', qte = ''2''\<rparr> = Some (Num 300)"
  "montant \<lparr>lid = 4, ref = [], qte = []\<rparr> = None"
  by (simp_all add: montant_def TARIFS_get_examples parseFloat_examples fl_examples)

section \<open>Quote total: the claims\<close>


text \<open>
  C7 (as stated): for every list of line items and every permutation of it,
  computeTotal() is the same on both. The total is a left-to-right sum of doubles,
  and each addition rounds: with 0.1, 0.2 and 0.3 units of ENV-001 (2 euros each)
  the total is 1.2000000000000002, and with the same three lines in reverse order
  it is 1.2.
\<close>

theorem calcTotal_order_matters:
  "calcTotal [\<lparr>lid = 1, ref = ''ENV-001'', qte = ''0.1''\<rparr>,
              \<lparr>lid = 2, ref = ''ENV-001'', qte = ''0.2''\<rparr>,
              \<lparr>lid = 3, ref = ''ENV-001'', qte = ''0.3''\<rparr>]
     = Num (1351079888211149 / 1125899906842624)
   \<and> calcTotal [\<lparr>lid = 3, ref = ''ENV-001'', qte = ''0.3''\<rparr>,
              \<lparr>lid = 2, ref = ''ENV-001'', qte = ''0.2''\<rparr>,
              \<lparr>lid = 1, ref = ''ENV-001'', qte = ''0.1''\<rparr>]
     = Num (5404319552844595 / 4503599627370496)
   \<and> calcTotal [\<lparr>lid = 1, ref = ''ENV-001'', qte = ''0.1''\<rparr>,
              \<lparr>lid = 2, ref = ''ENV-001'', qte = ''0.2''\<rparr>,
              \<lparr>lid = 3, ref = ''ENV-001'', qte = ''0.3''\<rparr>]
     \<noteq> calcTotal [\<lparr>lid = 3, ref = ''ENV-001'', qte = ''0.3''\<rparr>,
              \<lparr>lid = 2, ref = ''ENV-001'', qte = ''0.2''\<rparr>,
              \<lparr>lid = 1, ref = ''ENV-001'', qte = ''0.1''\<rparr>]"
  by (simp add: calcTotal_def ajoute_def TARIFS_get_examples parseFloat_examples
      fl_examples)

text \<open>
  C7 (amended): for every list of line items in which every line adds nothing or a
  multiple of one half to the total (\<open>montant_demi\<close>: whole and half quantities at
  the catalog's integer prices) and the absolute amounts add up to less than
  \<open>2 ^ 52\<close> (less than \<open>2 ^ 53\<close> halves), computeTotal() is the same on every
  permutation of the list, and it is the exact sum of the amounts: no addition
  rounds.
\<close>

theorem calcTotal_permutation:
  assumes "mset ls' = mset ls"
    and "list_all montant_demi ls"
    and "(\<Sum>l\<leftarrow>ls. \<bar>demis l\<bar>) < 2 ^ 53"
  shows "calcTotal ls' = calcTotal ls \<and> calcTotal ls = Num (of_int (\<Sum>l\<leftarrow>ls. demis l) / 2)"
proof -
  from assms(1) have "set ls' = set ls"
    by (rule mset_eq_setD)
  with assms(2) have half: "list_all montant_demi ls'"
    by (simp add: list_all_iff)
  from assms(1) have abs_eq: "(\<Sum>l\<leftarrow>ls'. \<bar>demis l\<bar>) = (\<Sum>l\<leftarrow>ls. \<bar>demis l\<bar>)"
    by (rule sum_list_mset_cong)
  from assms(1) have val_eq: "(\<Sum>l\<leftarrow>ls'. demis l) = (\<Sum>l\<leftarrow>ls. demis l)"
    by (rule sum_list_mset_cong)
  from assms(3) abs_eq have "(\<Sum>l\<leftarrow>ls'. \<bar>demis l\<bar>) < 2 ^ 53"
    by simp
  with half have "calcTotal ls' = Num (of_int (\<Sum>l\<leftarrow>ls'. demis l) / 2)"
    by (rule calcTotal_exact)
  moreover from assms(2,3) have "calcTotal ls = Num (of_int (\<Sum>l\<leftarrow>ls. demis l) / 2)"
    by (rule calcTotal_exact)
  ultimately show ?thesis
    using val_eq by simp
qed

theorem calcTotal_permutation_witness:
  "calcTotal (rev [\<lparr>lid = 1, ref = ''BUL-001'', qte = ''1.5''\<rparr>,
                   \<lparr>lid = 2, ref = ''ENT-001'', qte = ''0.5''\<rparr>,
                   \<lparr>lid = 3, ref = ''CDI-001'', qte = ''2''\<rparr>,
                   \<lparr>lid = 4, ref = [], qte = []\<rparr>])
     = calcTotal [\<lparr>lid = 1, ref = ''BUL-001'', qte = ''1.5''\<rparr>,
                  \<lparr>lid = 2, ref = ''ENT-001'', qte = ''0.5''\<rparr>,
                  \<lparr>lid = 3, ref = ''CDI-001'', qte = ''2''\<rparr>,
                  \<lparr>lid = 4, ref = [], qte = []\<rparr>]
   \<and> calcTotal [\<lparr>lid = 1, ref = ''BUL-001'', qte = ''1.5''\<rparr>,
                  \<lparr>lid = 2, ref = ''ENT-001'', qte = ''0.5''\<rparr>,
                  \<lparr>lid = 3, ref = ''CDI-001'', qte = ''2''\<rparr>,
                  \<lparr>lid = 4, ref = [], qte = []\<rparr>] = Num (675 / 2)"
proof -
  let ?ls = "[\<lparr>lid = 1, ref = ''BUL-001'', qte = ''1.5''\<rparr>,
              \<lparr>lid = 2, ref = ''ENT-001'', qte = ''0.5''\<rparr>,
              \<lparr>lid = 3, ref = ''CDI-001'', qte = ''2''\<rparr>,
              \<lparr>lid = 4, ref = [], qte = []\<rparr>]"
  have p: "mset (rev ?ls) = mset ?ls"
    by (rule mset_rev)
  from montant_example
  have m: "map montant ?ls = [Some (Num 30), Some (Num (15 / 2)), Some (Num 300), None]"
    by simp
  then have h: "list_all montant_demi ?ls"
    by (simp add: montant_demi_def)
  from m have v: "map demis ?ls = [60, 15, 600, 0]"
    by (simp add: demis_def)
  have b: "(\<Sum>l\<leftarrow>?ls. \<bar>demis l\<bar>) < 2 ^ 53"
    using v by simp
  have s: "(\<Sum>l\<leftarrow>?ls. demis l) = 675"
    using v by simp
  from calcTotal_permutation [OF p h b] show ?thesis
    by (simp only: s of_int_numeral)
qed

end
